theory Spec2Isabelle
  imports Main
begin

section \<open>The incremental Merkle tree of \<^verbatim>\<open>src/merkle.js\<close>\<close>

text \<open>
  The class \<^verbatim>\<open>MerkleTree\<close> is embedded as a record of its fields and one function
  per method. Digests are values of an arbitrary type \<open>'a\<close>; the compression
  function (\<^verbatim>\<open>mimc7.multiHash\<close> on two inputs, an external collaborator) is the
  parameter \<open>H\<close> of every definition. A JavaScript value that may be
  \<^verbatim>\<open>undefined\<close> is an \<open>'a option\<close>, with \<open>None\<close> for \<^verbatim>\<open>undefined\<close>. Objects used
  as dictionaries are partial maps; reading an absent key gives \<open>None\<close>.
  A \<^verbatim>\<open>throw\<close> is the left injection of a sum; for the mutating methods it carries
  the tree as the throw leaves it. Depths, levels and indices are natural
  numbers: the source computes them in doubles, which are exact below \<open>2 ^ 53\<close>,
  where \<^verbatim>\<open>parseInt(curIdx / 2)\<close> is \<open>curIdx div 2\<close>. Digests are compared by
  value, as \<^verbatim>\<open>===\<close> compares the native big integers the hash returns.
\<close>

subsection \<open>Errors, results and loops\<close>

datatype error = CapacityExceeded | LeafNotInserted | ProofMismatch | TypeError

definition bindE :: "'e + 'x \<Rightarrow> ('x \<Rightarrow> 'e + 'y) \<Rightarrow> 'e + 'y" where
  "bindE m f = (case m of Inl e \<Rightarrow> Inl e | Inr x \<Rightarrow> f x)"

text \<open>
  \<open>forUpto lo n body s\<close> is the loop \<^verbatim>\<open>for (let i = lo; i < lo + n; i++) body\<close>
  started in state \<open>s\<close>: the iterations \<open>lo, lo + 1, \<dots>, lo + n - 1\<close> in this
  order, stopping at the first one that throws.
\<close>

primrec forUpto :: "nat \<Rightarrow> nat \<Rightarrow> (nat \<Rightarrow> 's \<Rightarrow> 'e + 's) \<Rightarrow> 's \<Rightarrow> 'e + 's" where
  "forUpto lo 0 body s = Inr s"
| "forUpto lo (Suc n) body s = bindE (forUpto lo n body s) (body (lo + n))"

subsection \<open>The tree\<close>

record 'a MerkleTree =
  depth :: nat
  zeroValue :: 'a
  leaves :: "'a list"
  leafNumber :: nat
  zeros :: "nat \<rightharpoonup> 'a"
  filledSubtrees :: "nat \<rightharpoonup> 'a"
  filledPaths :: "nat \<rightharpoonup> (nat \<rightharpoonup> 'a)"
  root :: 'a
  nextIndex :: nat

text \<open>
  \<^verbatim>\<open>hashLeftRight(left, right)\<close> is \<^verbatim>\<open>hash([left, right])\<close>, which converts
  each entry with \<^verbatim>\<open>bigInt\<close> before hashing. The conversion of \<^verbatim>\<open>undefined\<close>
  raises a \<^verbatim>\<open>TypeError\<close>.
\<close>

definition hashLeftRight :: "('a \<Rightarrow> 'a \<Rightarrow> 'a) \<Rightarrow> 'a option \<Rightarrow> 'a option \<Rightarrow> error + 'a" where
  "hashLeftRight H left right =
     (case left of None \<Rightarrow> Inl TypeError
      | Some l \<Rightarrow> (case right of None \<Rightarrow> Inl TypeError | Some r \<Rightarrow> Inr (H l r)))"

text \<open>
  \<^verbatim>\<open>fp[i][j] = v\<close> and \<^verbatim>\<open>fp[i][j]\<close> on the dictionary of dictionaries: both raise
  a \<^verbatim>\<open>TypeError\<close> when \<^verbatim>\<open>fp[i]\<close> is \<^verbatim>\<open>undefined\<close>. Storing \<^verbatim>\<open>undefined\<close> reads
  back as \<^verbatim>\<open>undefined\<close>, like an absent key.
\<close>

definition setPath ::
  "(nat \<rightharpoonup> (nat \<rightharpoonup> 'a)) \<Rightarrow> nat \<Rightarrow> nat \<Rightarrow> 'a option \<Rightarrow> error + (nat \<rightharpoonup> (nat \<rightharpoonup> 'a))" where
  "setPath fp i j v =
     (case fp i of None \<Rightarrow> Inl TypeError | Some row \<Rightarrow> Inr (fp(i \<mapsto> row(j := v))))"

definition getPath :: "(nat \<rightharpoonup> (nat \<rightharpoonup> 'a)) \<Rightarrow> nat \<Rightarrow> nat \<Rightarrow> error + 'a option" where
  "getPath fp i j = (case fp i of None \<Rightarrow> Inl TypeError | Some row \<Rightarrow> Inr (row j))"

text \<open>\<^verbatim>\<open>xs[i]\<close> on an array: \<^verbatim>\<open>undefined\<close> out of range.\<close>

definition leafAt :: "'a list \<Rightarrow> nat \<Rightarrow> 'a option" where
  "leafAt xs i = (if i < length xs then Some (xs ! i) else None)"

definition pathAt :: "'a option list \<Rightarrow> nat \<Rightarrow> 'a option" where
  "pathAt path i = (if i < length path then path ! i else None)"

subsection \<open>The constructor (lines 13 to 51)\<close>

text \<open>
  The first loop fills \<^verbatim>\<open>zeros\<close>, \<^verbatim>\<open>filledSubtrees\<close> and the empty rows of
  \<^verbatim>\<open>filledPaths\<close> for the levels \<open>1, \<dots>, depth - 1\<close>.
\<close>

definition ctor_level ::
  "('a \<Rightarrow> 'a \<Rightarrow> 'a) \<Rightarrow> nat \<Rightarrow>
   (nat \<rightharpoonup> 'a) \<times> (nat \<rightharpoonup> 'a) \<times> (nat \<rightharpoonup> (nat \<rightharpoonup> 'a)) \<Rightarrow>
   error + (nat \<rightharpoonup> 'a) \<times> (nat \<rightharpoonup> 'a) \<times> (nat \<rightharpoonup> (nat \<rightharpoonup> 'a))" where
  "ctor_level H i s =
     (case s of (zs, fs, fp) \<Rightarrow>
        bindE (hashLeftRight H (zs (i - 1)) (zs (i - 1))) (\<lambda>h.
          let zs' = zs(i \<mapsto> h);
              fs' = fs(i := zs' i);
              fp' = fp(i \<mapsto> Map.empty)
          in Inr (zs', fs', fp')))"

text \<open>
  The second loop, with its inner loop over \<open>j\<close>, seeds the rows
  \<open>1, \<dots>, depth - 1\<close> of \<^verbatim>\<open>filledPaths\<close>.
\<close>

definition ctor_seed ::
  "('a \<Rightarrow> 'a \<Rightarrow> 'a) \<Rightarrow> 'a \<Rightarrow> (nat \<rightharpoonup> 'a) \<Rightarrow> nat \<Rightarrow> nat \<Rightarrow>
   (nat \<rightharpoonup> (nat \<rightharpoonup> 'a)) \<Rightarrow> error + (nat \<rightharpoonup> (nat \<rightharpoonup> 'a))" where
  "ctor_seed H z fs i j fp =
     (if i = 1
      then bindE (hashLeftRight H (Some z) (Some z)) (\<lambda>h. setPath fp i j (Some h))
      else bindE (hashLeftRight H (fs (i - 1)) (fs (i - 1))) (\<lambda>h. setPath fp i j (Some h)))"

definition ctor_seed_level ::
  "('a \<Rightarrow> 'a \<Rightarrow> 'a) \<Rightarrow> nat \<Rightarrow> 'a \<Rightarrow> (nat \<rightharpoonup> 'a) \<Rightarrow> nat \<Rightarrow>
   (nat \<rightharpoonup> (nat \<rightharpoonup> 'a)) \<Rightarrow> error + (nat \<rightharpoonup> (nat \<rightharpoonup> 'a))" where
  "ctor_seed_level H d z fs i fp = forUpto 0 (2 ^ (d - i)) (ctor_seed H z fs i) fp"

text \<open>
  \<^verbatim>\<open>this.zeros[this.depth - 1]\<close> reads the key \<open>-1\<close> when the depth is \<open>0\<close>: no
  such key is ever stored, so the read is \<^verbatim>\<open>undefined\<close>. A constructor that
  throws yields no tree.
\<close>

definition construct :: "('a \<Rightarrow> 'a \<Rightarrow> 'a) \<Rightarrow> nat \<Rightarrow> 'a \<Rightarrow> error + 'a MerkleTree" where
  "construct H d z =
     bindE (forUpto 1 (d - 1) (ctor_level H) ([0 \<mapsto> z], [0 \<mapsto> z], [0 \<mapsto> Map.empty]))
       (\<lambda>s. case s of (zs, fs, fp0) \<Rightarrow>
          bindE (forUpto 1 (d - 1) (ctor_seed_level H d z fs) fp0) (\<lambda>fp.
            let top = (if d = 0 then None else zs (d - 1)) in
            bindE (hashLeftRight H top top) (\<lambda>r.
              Inr \<lparr>depth = d, zeroValue = z, leaves = [], leafNumber = 2 ^ d,
                   zeros = zs, filledSubtrees = fs, filledPaths = fp,
                   root = r, nextIndex = 0\<rparr>)))"

subsection \<open>\<^verbatim>\<open>insert\<close> (lines 69 to 104)\<close>

text \<open>
  The state of the loop is the tree, \<^verbatim>\<open>curIdx\<close> and \<^verbatim>\<open>currentLevelHash\<close>.
  A statement that throws returns the tree as the statements before it left it.
\<close>

definition storePath ::
  "'a MerkleTree \<Rightarrow> nat \<Rightarrow> nat \<Rightarrow> 'a option \<Rightarrow> (error \<times> 'a MerkleTree) + 'a MerkleTree" where
  "storePath t i j v =
     (case setPath (filledPaths t) i j v of
        Inl e \<Rightarrow> Inl (e, t)
      | Inr fp \<Rightarrow> Inr (t\<lparr>filledPaths := fp\<rparr>))"

definition hashIn ::
  "('a \<Rightarrow> 'a \<Rightarrow> 'a) \<Rightarrow> 'a MerkleTree \<Rightarrow> 'a option \<Rightarrow> 'a option \<Rightarrow> (error \<times> 'a MerkleTree) + 'a" where
  "hashIn H t left right =
     (case hashLeftRight H left right of Inl e \<Rightarrow> Inl (e, t) | Inr h \<Rightarrow> Inr h)"

definition insert_level ::
  "('a \<Rightarrow> 'a \<Rightarrow> 'a) \<Rightarrow> nat \<Rightarrow> 'a MerkleTree \<times> nat \<times> 'a \<Rightarrow>
   (error \<times> 'a MerkleTree) + ('a MerkleTree \<times> nat \<times> 'a)" where
  "insert_level H i s =
     (case s of (t, curIdx, currentLevelHash) \<Rightarrow>
        if curIdx mod 2 = 0 then
          (let left = Some currentLevelHash;
               right = zeros t i;
               t1 = t\<lparr>filledSubtrees := (filledSubtrees t)(i \<mapsto> currentLevelHash)\<rparr>
           in bindE (storePath t1 i curIdx left) (\<lambda>t2.
              bindE (storePath t2 i (curIdx + 1) right) (\<lambda>t3.
              bindE (hashIn H t3 left right) (\<lambda>h.
                Inr (t3, curIdx div 2, h)))))
        else
          (let left = filledSubtrees t i;
               right = Some currentLevelHash
           in bindE (storePath t i (curIdx - 1) left) (\<lambda>t2.
              bindE (storePath t2 i curIdx right) (\<lambda>t3.
              bindE (hashIn H t3 left right) (\<lambda>h.
                Inr (t3, curIdx div 2, h))))))"

definition insert ::
  "('a \<Rightarrow> 'a \<Rightarrow> 'a) \<Rightarrow> 'a MerkleTree \<Rightarrow> 'a \<Rightarrow> (error \<times> 'a MerkleTree) + 'a MerkleTree" where
  "insert H t leaf =
     (if nextIndex t + 1 > leafNumber t then Inl (CapacityExceeded, t)
      else
        let curIdx = nextIndex t;
            t0 = t\<lparr>nextIndex := nextIndex t + 1\<rparr>
        in bindE (forUpto 0 (depth t0) (insert_level H) (t0, curIdx, leaf)) (\<lambda>s.
             case s of (t1, _, currentLevelHash) \<Rightarrow>
               Inr (t1\<lparr>root := currentLevelHash, leaves := leaves t1 @ [leaf]\<rparr>)))"

subsection \<open>\<^verbatim>\<open>leafExists\<close> (lines 106 to 134)\<close>

text \<open>
  The method assigns to no field; it is a function of the tree. The loop state
  is \<^verbatim>\<open>curIdx\<close> and \<^verbatim>\<open>currentLevelHash\<close>; the latter starts as the argument
  \<^verbatim>\<open>leaf\<close>, which \<^verbatim>\<open>update\<close> may pass as \<^verbatim>\<open>undefined\<close>.
\<close>

definition leafExists_level ::
  "('a \<Rightarrow> 'a \<Rightarrow> 'a) \<Rightarrow> 'a option list \<Rightarrow> nat \<Rightarrow> nat \<times> 'a option \<Rightarrow> error + (nat \<times> 'a option)" where
  "leafExists_level H path i s =
     (case s of (curIdx, currentLevelHash) \<Rightarrow>
        if curIdx mod 2 = 0 then
          bindE (hashLeftRight H currentLevelHash (pathAt path i)) (\<lambda>h.
            Inr (curIdx div 2, Some h))
        else
          bindE (hashLeftRight H (pathAt path i) currentLevelHash) (\<lambda>h.
            Inr (curIdx div 2, Some h)))"

definition leafExists ::
  "('a \<Rightarrow> 'a \<Rightarrow> 'a) \<Rightarrow> 'a MerkleTree \<Rightarrow> nat \<Rightarrow> 'a option \<Rightarrow> 'a option list \<Rightarrow> error + bool" where
  "leafExists H t leafIndex leaf path =
     (if leafIndex \<ge> nextIndex t then Inl LeafNotInserted
      else bindE (forUpto 0 (depth t) (leafExists_level H path) (leafIndex, leaf)) (\<lambda>s.
             case s of (_, currentLevelHash) \<Rightarrow> Inr (Some (root t) = currentLevelHash)))"

subsection \<open>\<^verbatim>\<open>update\<close> (lines 142 to 177)\<close>

definition update_level ::
  "('a \<Rightarrow> 'a \<Rightarrow> 'a) \<Rightarrow> 'a option list \<Rightarrow> nat \<Rightarrow> 'a MerkleTree \<times> nat \<times> 'a \<Rightarrow>
   (error \<times> 'a MerkleTree) + ('a MerkleTree \<times> nat \<times> 'a)" where
  "update_level H path i s =
     (case s of (t, curIdx, currentLevelHash) \<Rightarrow>
        if curIdx mod 2 = 0 then
          (let left = Some currentLevelHash;
               right = pathAt path i
           in bindE (storePath t i curIdx left) (\<lambda>t2.
              bindE (storePath t2 i (curIdx + 1) right) (\<lambda>t3.
              bindE (hashIn H t3 left right) (\<lambda>h.
                Inr (t3, curIdx div 2, h)))))
        else
          (let left = pathAt path i;
               right = Some currentLevelHash
           in bindE (storePath t i (curIdx - 1) left) (\<lambda>t2.
              bindE (storePath t2 i curIdx right) (\<lambda>t3.
              bindE (hashIn H t3 left right) (\<lambda>h.
                Inr (t3, curIdx div 2, h))))))"

text \<open>
  The final assignment \<^verbatim>\<open>this.leaves[leafIndex] = leaf\<close> would extend the array
  for an index beyond its length. It is only reached with an index inside the
  array (lemma \<open>update_index_in_range\<close> below), where it is \<open>list_update\<close>.
\<close>

definition update ::
  "('a \<Rightarrow> 'a \<Rightarrow> 'a) \<Rightarrow> 'a MerkleTree \<Rightarrow> nat \<Rightarrow> 'a \<Rightarrow> 'a option list \<Rightarrow>
   (error \<times> 'a MerkleTree) + 'a MerkleTree" where
  "update H t leafIndex leaf path =
     (case leafExists H t leafIndex (leafAt (leaves t) leafIndex) path of
        Inl e \<Rightarrow> Inl (e, t)
      | Inr ok \<Rightarrow>
          if \<not> ok then Inl (ProofMismatch, t)
          else bindE (forUpto 0 (depth t) (update_level H path) (t, leafIndex, leaf)) (\<lambda>s.
                 case s of (t1, _, currentLevelHash) \<Rightarrow>
                   Inr (t1\<lparr>root := currentLevelHash,
                           leaves := (leaves t1)[leafIndex := leaf]\<rparr>)))"

subsection \<open>\<^verbatim>\<open>getPathUpdate\<close> (lines 183 to 204)\<close>

definition getPathUpdate_level ::
  "'a MerkleTree \<Rightarrow> nat \<Rightarrow> nat \<times> 'a option list \<times> (nat \<times> nat) list \<Rightarrow>
   error + (nat \<times> 'a option list \<times> (nat \<times> nat) list)" where
  "getPathUpdate_level t i s =
     (case s of (curIdx, path, leafIndexes) \<Rightarrow>
        if curIdx mod 2 = 0 then
          bindE (getPath (filledPaths t) i (curIdx + 1)) (\<lambda>v.
            Inr (curIdx div 2, path @ [v], leafIndexes @ [(i, curIdx + 1)]))
        else
          bindE (getPath (filledPaths t) i (curIdx - 1)) (\<lambda>v.
            Inr (curIdx div 2, path @ [v], leafIndexes @ [(i, curIdx - 1)])))"

definition getPathUpdate ::
  "'a MerkleTree \<Rightarrow> nat \<Rightarrow> error + ('a option list \<times> (nat \<times> nat) list)" where
  "getPathUpdate t leafIndex =
     (if leafIndex \<ge> nextIndex t then Inl LeafNotInserted
      else bindE (forUpto 0 (depth t) (getPathUpdate_level t) (leafIndex, [], [])) (\<lambda>s.
             case s of (_, path, leafIndexes) \<Rightarrow> Inr (path, leafIndexes)))"

subsection \<open>Calls and reachable trees\<close>

text \<open>
  A call of one of the four methods yields an outcome and the tree after the
  call; a call that throws leaves the tree the throw carries. The two queries
  assign to no field of the object, so the tree after them is the tree before.
  The reachable trees are those a program can hold: what the constructor
  returned, followed by any calls, returning or throwing.
\<close>

datatype 'a call =
    Insert 'a
  | LeafExists nat "'a option" "'a option list"
  | Update nat 'a "'a option list"
  | GetPathUpdate nat

datatype 'a outcome =
    Threw error
  | Returned
  | ReturnedBool bool
  | ReturnedPath "'a option list" "(nat \<times> nat) list"

fun invoke :: "('a \<Rightarrow> 'a \<Rightarrow> 'a) \<Rightarrow> 'a MerkleTree \<Rightarrow> 'a call \<Rightarrow> 'a outcome \<times> 'a MerkleTree" where
  "invoke H t (Insert leaf) =
     (case insert H t leaf of Inl (e, t') \<Rightarrow> (Threw e, t') | Inr t' \<Rightarrow> (Returned, t'))"
| "invoke H t (LeafExists leafIndex leaf path) =
     (case leafExists H t leafIndex leaf path of
        Inl e \<Rightarrow> (Threw e, t) | Inr b \<Rightarrow> (ReturnedBool b, t))"
| "invoke H t (Update leafIndex leaf path) =
     (case update H t leafIndex leaf path of
        Inl (e, t') \<Rightarrow> (Threw e, t') | Inr t' \<Rightarrow> (Returned, t'))"
| "invoke H t (GetPathUpdate leafIndex) =
     (case getPathUpdate t leafIndex of
        Inl e \<Rightarrow> (Threw e, t) | Inr (path, leafIndexes) \<Rightarrow> (ReturnedPath path leafIndexes, t))"

text \<open>
  \<open>invokeAll\<close> is the tree after a sequence of calls, \<open>invokeOutcomes\<close> their
  outcomes in order, and \<open>insertAll\<close> a run of inserts that stops at the first
  throw.
\<close>

fun invokeAll :: "('a \<Rightarrow> 'a \<Rightarrow> 'a) \<Rightarrow> 'a MerkleTree \<Rightarrow> 'a call list \<Rightarrow> 'a MerkleTree" where
  "invokeAll H t [] = t"
| "invokeAll H t (c # cs) = invokeAll H (snd (invoke H t c)) cs"

fun invokeOutcomes :: "('a \<Rightarrow> 'a \<Rightarrow> 'a) \<Rightarrow> 'a MerkleTree \<Rightarrow> 'a call list \<Rightarrow> 'a outcome list" where
  "invokeOutcomes H t [] = []"
| "invokeOutcomes H t (c # cs) = fst (invoke H t c) # invokeOutcomes H (snd (invoke H t c)) cs"

fun isRead :: "'a call \<Rightarrow> bool" where
  "isRead (LeafExists leafIndex leaf path) = True"
| "isRead (GetPathUpdate leafIndex) = True"
| "isRead (Insert leaf) = False"
| "isRead (Update leafIndex leaf path) = False"

fun insertAll ::
  "('a \<Rightarrow> 'a \<Rightarrow> 'a) \<Rightarrow> 'a MerkleTree \<Rightarrow> 'a list \<Rightarrow> (error \<times> 'a MerkleTree) + 'a MerkleTree" where
  "insertAll H t [] = Inr t"
| "insertAll H t (leaf # rest) = bindE (insert H t leaf) (\<lambda>t'. insertAll H t' rest)"

inductive reachable :: "('a \<Rightarrow> 'a \<Rightarrow> 'a) \<Rightarrow> 'a MerkleTree \<Rightarrow> bool" for H where
  constructed: "construct H d z = Inr t \<Longrightarrow> reachable H t"
| invoked: "reachable H t \<Longrightarrow> reachable H (snd (invoke H t c))"

subsection \<open>Notions of the specification\<close>

text \<open>
  \<open>zerosByLevel\<close> follows the recurrence the specification gives for the
  digests of the empty subtrees. \<open>node H z ls i j\<close> is the Merkle node number
  \<open>j\<close> of level \<open>i\<close> over the leaves \<open>ls\<close> padded with the zero value \<open>z\<close>, and
  \<open>merkleRoot\<close> the node of level \<open>depth\<close>. \<open>siblingIndex leafIndex i\<close> is the
  index the specification names for level \<open>i\<close>: the leaf index halved \<open>i\<close>
  times, plus one when even and minus one when odd.
\<close>

primrec zerosByLevel :: "('a \<Rightarrow> 'a \<Rightarrow> 'a) \<Rightarrow> 'a \<Rightarrow> nat \<Rightarrow> 'a" where
  "zerosByLevel H z 0 = z"
| "zerosByLevel H z (Suc i) = H (zerosByLevel H z i) (zerosByLevel H z i)"

primrec node :: "('a \<Rightarrow> 'a \<Rightarrow> 'a) \<Rightarrow> 'a \<Rightarrow> 'a list \<Rightarrow> nat \<Rightarrow> nat \<Rightarrow> 'a" where
  "node H z ls 0 j = (if j < length ls then ls ! j else z)"
| "node H z ls (Suc i) j = H (node H z ls i (2 * j)) (node H z ls i (2 * j + 1))"

definition merkleRoot :: "('a \<Rightarrow> 'a \<Rightarrow> 'a) \<Rightarrow> 'a \<Rightarrow> nat \<Rightarrow> 'a list \<Rightarrow> 'a" where
  "merkleRoot H z d ls = node H z ls d 0"

definition siblingIndex :: "nat \<Rightarrow> nat \<Rightarrow> nat" where
  "siblingIndex leafIndex i =
     (let curIdx = leafIndex div 2 ^ i in if curIdx mod 2 = 0 then curIdx + 1 else curIdx - 1)"

text \<open>
  \<open>pathEntry t i j\<close> is the digest recorded as \<^verbatim>\<open>filledPaths[i][j]\<close>, if any, and
  \<open>recordedNode\<close> recombines the tree from the recorded entries of the leaf
  level, with the zero value at the positions that have none.
\<close>

definition pathEntry :: "'a MerkleTree \<Rightarrow> nat \<Rightarrow> nat \<Rightarrow> 'a option" where
  "pathEntry t i j = (case filledPaths t i of None \<Rightarrow> None | Some row \<Rightarrow> row j)"

primrec recordedNode :: "('a \<Rightarrow> 'a \<Rightarrow> 'a) \<Rightarrow> 'a MerkleTree \<Rightarrow> nat \<Rightarrow> nat \<Rightarrow> 'a" where
  "recordedNode H t 0 j = (case pathEntry t 0 j of Some v \<Rightarrow> v | None \<Rightarrow> zeroValue t)"
| "recordedNode H t (Suc i) j = H (recordedNode H t i (2 * j)) (recordedNode H t i (2 * j + 1))"

text \<open>
  A path supplies \<open>n\<close> digests when its first \<open>n\<close> entries are defined. The
  hash is collision-free when it is injective in both arguments together.
\<close>

definition pathDefined :: "'a option list \<Rightarrow> nat \<Rightarrow> bool" where
  "pathDefined path n \<longleftrightarrow> (\<forall>i < n. pathAt path i \<noteq> None)"

definition injective2 :: "('a \<Rightarrow> 'a \<Rightarrow> 'a) \<Rightarrow> bool" where
  "injective2 H \<longleftrightarrow> (\<forall>a b c d. H a b = H c d \<longrightarrow> a = c \<and> b = d)"

subsection \<open>Invariants of the proofs\<close>

text \<open>
  The closed form of the tables the constructor builds, the facts every
  reachable tree satisfies (\<open>wellFormed\<close>), the loop invariants of \<^verbatim>\<open>update\<close>
  and \<^verbatim>\<open>insert\<close>, and the invariant of a tree built by inserts alone
  (\<open>synced\<close>): the root, the entries of \<open>filledPaths\<close> a sibling path reads
  (\<open>known\<close>) and \<open>filledSubtrees\<close> are Merkle nodes of the padded leaves.
\<close>

definition zeroMap :: "('a \<Rightarrow> 'a \<Rightarrow> 'a) \<Rightarrow> 'a \<Rightarrow> nat \<Rightarrow> nat \<rightharpoonup> 'a" where
  "zeroMap H z k = (\<lambda>i. if i < k then Some (zerosByLevel H z i) else None)"

definition emptyRows :: "nat \<Rightarrow> nat \<rightharpoonup> (nat \<rightharpoonup> 'a)" where
  "emptyRows k = (\<lambda>i. if i < k then Some Map.empty else None)"

definition seededRow :: "('a \<Rightarrow> 'a \<Rightarrow> 'a) \<Rightarrow> 'a \<Rightarrow> nat \<Rightarrow> nat \<Rightarrow> nat \<rightharpoonup> 'a" where
  "seededRow H z i n = (\<lambda>j. if j < n then Some (zerosByLevel H z i) else None)"

definition seededRows :: "('a \<Rightarrow> 'a \<Rightarrow> 'a) \<Rightarrow> 'a \<Rightarrow> nat \<Rightarrow> nat \<Rightarrow> nat \<rightharpoonup> (nat \<rightharpoonup> 'a)" where
  "seededRows H z d k =
     (\<lambda>i. if i = 0 then Some Map.empty
          else if i < k then Some (seededRow H z i (2 ^ (d - i)))
          else if i < d then Some Map.empty else None)"

definition wellFormed :: "('a \<Rightarrow> 'a \<Rightarrow> 'a) \<Rightarrow> 'a MerkleTree \<Rightarrow> bool" where
  "wellFormed H t \<longleftrightarrow>
     0 < depth t \<and> leafNumber t = 2 ^ depth t \<and>
     length (leaves t) = nextIndex t \<and> nextIndex t \<le> leafNumber t \<and>
     zeros t = zeroMap H (zeroValue t) (depth t) \<and>
     (\<forall>i < depth t. filledSubtrees t i \<noteq> None \<and> filledPaths t i \<noteq> None)"

definition sameStatic :: "'a MerkleTree \<Rightarrow> 'a MerkleTree \<Rightarrow> bool" where
  "sameStatic t0 t \<longleftrightarrow>
     depth t = depth t0 \<and> zeroValue t = zeroValue t0 \<and> leaves t = leaves t0 \<and>
     leafNumber t = leafNumber t0 \<and> zeros t = zeros t0 \<and> root t = root t0 \<and>
     nextIndex t = nextIndex t0"

definition rowsDefined :: "'a MerkleTree \<Rightarrow> bool" where
  "rowsDefined t \<longleftrightarrow> (\<forall>i < depth t. filledSubtrees t i \<noteq> None \<and> filledPaths t i \<noteq> None)"

definition pathValue :: "'a option list \<Rightarrow> nat \<Rightarrow> 'a" where
  "pathValue path i = the (pathAt path i)"

primrec climb :: "('a \<Rightarrow> 'a \<Rightarrow> 'a) \<Rightarrow> nat \<Rightarrow> 'a \<Rightarrow> (nat \<Rightarrow> 'a) \<Rightarrow> nat \<Rightarrow> 'a" where
  "climb H k leaf sib 0 = leaf"
| "climb H k leaf sib (Suc i) =
     (if (k div 2 ^ i) mod 2 = 0 then H (climb H k leaf sib i) (sib i)
      else H (sib i) (climb H k leaf sib i))"

definition rowFrame :: "nat \<Rightarrow> nat \<Rightarrow> (nat \<rightharpoonup> (nat \<rightharpoonup> 'a)) \<Rightarrow> (nat \<rightharpoonup> (nat \<rightharpoonup> 'a)) \<Rightarrow> bool" where
  "rowFrame leafIndex n fp fp' \<longleftrightarrow>
     (\<forall>i. (n \<le> i \<longrightarrow> fp' i = fp i) \<and>
          (i < n \<longrightarrow> (\<exists>r r'. fp i = Some r \<and> fp' i = Some r' \<and>
             (\<forall>j. j \<noteq> leafIndex div 2 ^ i \<longrightarrow> j \<noteq> siblingIndex leafIndex i \<longrightarrow> r' j = r j))))"

definition updateInv ::
  "('a \<Rightarrow> 'a \<Rightarrow> 'a) \<Rightarrow> 'a MerkleTree \<Rightarrow> nat \<Rightarrow> 'a \<Rightarrow> 'a option list \<Rightarrow> nat \<Rightarrow>
   'a MerkleTree \<times> nat \<times> 'a \<Rightarrow> bool" where
  "updateInv H t leafIndex leaf path k s \<longleftrightarrow>
     (case s of (t', c', h') \<Rightarrow>
        c' = leafIndex div 2 ^ k \<and> h' = climb H leafIndex leaf (pathValue path) k \<and>
        sameStatic t t' \<and> filledSubtrees t' = filledSubtrees t \<and>
        rowFrame leafIndex k (filledPaths t) (filledPaths t') \<and> pathDefined path k)"

definition known :: "nat \<Rightarrow> nat \<Rightarrow> nat \<Rightarrow> nat \<Rightarrow> bool" where
  "known d n i j \<longleftrightarrow> (0 < i \<and> j < 2 ^ (d - i)) \<or> (i = 0 \<and> 2 * (j div 2) < n)"

definition synced :: "('a \<Rightarrow> 'a \<Rightarrow> 'a) \<Rightarrow> 'a MerkleTree \<Rightarrow> bool" where
  "synced H t \<longleftrightarrow>
     wellFormed H t \<and>
     root t = merkleRoot H (zeroValue t) (depth t) (leaves t) \<and>
     (\<forall>i < depth t. \<forall>j. known (depth t) (nextIndex t) i j \<longrightarrow>
        pathEntry t i j = Some (node H (zeroValue t) (leaves t) i j)) \<and>
     (0 < nextIndex t \<longrightarrow>
        (\<forall>i < depth t. filledSubtrees t i =
           Some (node H (zeroValue t) (leaves t) i (2 * ((nextIndex t - 1) div 2 ^ Suc i)))))"

definition insertInv ::
  "('a \<Rightarrow> 'a \<Rightarrow> 'a) \<Rightarrow> 'a MerkleTree \<Rightarrow> 'a \<Rightarrow> nat \<Rightarrow> 'a MerkleTree \<times> nat \<times> 'a \<Rightarrow> bool" where
  "insertInv H t leaf k s \<longleftrightarrow>
     (case s of (t', c', h') \<Rightarrow>
        c' = nextIndex t div 2 ^ k \<and>
        h' = node H (zeroValue t) (leaves t @ [leaf]) k (nextIndex t div 2 ^ k) \<and>
        sameStatic (t\<lparr>nextIndex := nextIndex t + 1\<rparr>) t' \<and>
        (\<forall>i. k \<le> i \<longrightarrow>
           filledSubtrees t' i = filledSubtrees t i \<and> filledPaths t' i = filledPaths t i) \<and>
        (\<forall>i < k. filledPaths t' i \<noteq> None \<and>
           filledSubtrees t' i =
             Some (node H (zeroValue t) (leaves t @ [leaf]) i (2 * (nextIndex t div 2 ^ Suc i))) \<and>
           (\<forall>j. known (depth t) (nextIndex t + 1) i j \<longrightarrow>
              pathEntry t' i j = Some (node H (zeroValue t) (leaves t @ [leaf]) i j))))"

subsection \<open>A collision-free hash and concrete trees\<close>

text \<open>
  The free hash: a digest is a value or the hash of two digests, so that
  \<open>Hashed\<close> is injective. The concrete trees instantiate the theorems.
\<close>

datatype digest = Val nat | Hashed digest digest

definition tree1 :: "digest MerkleTree" where
  "tree1 = projr (construct Hashed 1 (Val 0))"

definition tree2 :: "digest MerkleTree" where
  "tree2 = projr (construct Hashed 2 (Val 0))"

definition full1 :: "digest MerkleTree" where
  "full1 = invokeAll Hashed tree1 [Insert (Val 1), Insert (Val 2)]"

definition updated1 :: "digest MerkleTree" where
  "updated1 = projr (update Hashed full1 0 (Val 9) [Some (Val 2)])"

definition staleCalls :: "digest call list" where
  "staleCalls =
     [Insert (Val 1), Insert (Val 2), GetPathUpdate 1,
      Update 1 (Val 9) [Some (Val 1), Some (Hashed (Val 0) (Val 0))],
      Insert (Val 3), GetPathUpdate 1]"

definition stale :: "digest MerkleTree" where
  "stale = invokeAll Hashed tree2 staleCalls"

section \<open>Loops and the constructor\<close>

lemma bindE_Inl [simp]: "bindE (Inl e) f = Inl e"
  by (simp add: bindE_def)

lemma bindE_Inr [simp]: "bindE (Inr x) f = f x"
  by (simp add: bindE_def)

lemma forUpto_invariant:
  assumes init: "Q 0 s"
    and step: "\<And>k s. k < n \<Longrightarrow> Q k s \<Longrightarrow> \<exists>s'. body (lo + k) s = Inr s' \<and> Q (Suc k) s'"
  shows "\<exists>s'. forUpto lo n body s = Inr s' \<and> Q n s'"
  using step
proof (induction n)
  case 0
  show ?case using init by simp
next
  case (Suc n)
  have "\<exists>s'. forUpto lo n body s = Inr s' \<and> Q n s'"
    by (rule Suc.IH) (simp add: Suc.prems)
  then obtain s1 where s1: "forUpto lo n body s = Inr s1" "Q n s1" by blast
  from Suc.prems [of n s1] s1(2) obtain s2 where "body (lo + n) s1 = Inr s2" "Q (Suc n) s2"
    by auto
  with s1 show ?case by simp
qed

lemma ctor_levels:
  "forUpto 1 n (ctor_level H) ([0 \<mapsto> z], [0 \<mapsto> z], [0 \<mapsto> Map.empty])
     = Inr (zeroMap H z (Suc n), zeroMap H z (Suc n), emptyRows (Suc n))"
proof (induction n)
  case 0
  show ?case by (auto simp: zeroMap_def emptyRows_def fun_eq_iff)
next
  case (Suc n)
  have "forUpto 1 (Suc n) (ctor_level H) ([0 \<mapsto> z], [0 \<mapsto> z], [0 \<mapsto> Map.empty])
          = ctor_level H (1 + n) (zeroMap H z (Suc n), zeroMap H z (Suc n), emptyRows (Suc n))"
    by (simp only: forUpto.simps Suc bindE_Inr)
  also have "\<dots> = Inr (zeroMap H z (Suc (Suc n)), zeroMap H z (Suc (Suc n)), emptyRows (Suc (Suc n)))"
    by (auto simp: ctor_level_def hashLeftRight_def zeroMap_def emptyRows_def fun_eq_iff Let_def)
  finally show ?case .
qed

lemma ctor_seed_step:
  assumes "0 < i" "i < d" "fp i = Some row"
  shows "ctor_seed H z (zeroMap H z d) i j fp = Inr (fp(i \<mapsto> row(j \<mapsto> zerosByLevel H z i)))"
proof -
  obtain i' where i': "i = Suc i'" using assms(1) by (cases i) auto
  show ?thesis using assms
    by (auto simp: ctor_seed_def hashLeftRight_def setPath_def zeroMap_def i')
qed

lemma ctor_seed_row:
  assumes "0 < i" "fp i = Some row0" "i < d"
  shows "forUpto 0 n (ctor_seed H z (zeroMap H z d) i) fp
          = Inr (fp(i \<mapsto> (\<lambda>j. if j < n then Some (zerosByLevel H z i) else row0 j)))"
proof (induction n)
  case 0
  show ?case using assms by (auto simp: fun_eq_iff)
next
  case (Suc n)
  let ?fp = "fp(i \<mapsto> (\<lambda>j. if j < n then Some (zerosByLevel H z i) else row0 j))"
  have "forUpto 0 (Suc n) (ctor_seed H z (zeroMap H z d) i) fp
          = ctor_seed H z (zeroMap H z d) i n ?fp"
    by (simp only: forUpto.simps Suc bindE_Inr add_0)
  also have "\<dots> = Inr (?fp(i \<mapsto> (\<lambda>j. if j < n then Some (zerosByLevel H z i) else row0 j)(n \<mapsto> zerosByLevel H z i)))"
    by (rule ctor_seed_step) (use assms in simp_all)
  also have "\<dots> = Inr (fp(i \<mapsto> (\<lambda>j. if j < Suc n then Some (zerosByLevel H z i) else row0 j)))"
    by (auto simp: fun_eq_iff)
  finally show ?case .
qed

lemma ctor_seed_levels:
  assumes "n < d"
  shows "forUpto 1 n (ctor_seed_level H d z (zeroMap H z d)) (emptyRows d)
          = Inr (seededRows H z d (Suc n))"
  using assms
proof (induction n)
  case 0
  then show ?case by (auto simp: seededRows_def emptyRows_def fun_eq_iff)
next
  case (Suc n)
  have row: "seededRows H z d (Suc n) (Suc n) = Some Map.empty"
    using Suc.prems by (simp add: seededRows_def)
  have "forUpto 0 (2 ^ (d - Suc n)) (ctor_seed H z (zeroMap H z d) (Suc n)) (seededRows H z d (Suc n))
          = Inr ((seededRows H z d (Suc n))(Suc n \<mapsto>
                  (\<lambda>j. if j < 2 ^ (d - Suc n) then Some (zerosByLevel H z (Suc n)) else Map.empty j)))"
    by (rule ctor_seed_row [where ?row0.0 = Map.empty]) (use Suc.prems row in simp_all)
  also have "(seededRows H z d (Suc n))(Suc n \<mapsto>
                  (\<lambda>j. if j < 2 ^ (d - Suc n) then Some (zerosByLevel H z (Suc n)) else Map.empty j))
              = seededRows H z d (Suc (Suc n))"
    using Suc.prems by (auto simp: seededRows_def seededRow_def fun_eq_iff)
  finally have inner: "ctor_seed_level H d z (zeroMap H z d) (1 + n) (seededRows H z d (Suc n))
      = Inr (seededRows H z d (Suc (Suc n)))"
    by (simp add: ctor_seed_level_def)
  have "n < d" using Suc.prems by simp
  from Suc.IH [OF this] show ?case
    by (simp only: forUpto.simps bindE_Inr inner)
qed

lemma construct_eq:
  assumes "0 < d"
  shows "construct H d z =
     Inr \<lparr>depth = d, zeroValue = z, leaves = [], leafNumber = 2 ^ d,
          zeros = zeroMap H z d, filledSubtrees = zeroMap H z d,
          filledPaths = seededRows H z d d,
          root = H (zerosByLevel H z (d - 1)) (zerosByLevel H z (d - 1)), nextIndex = 0\<rparr>"
proof -
  obtain d' where d': "d = Suc d'" using assms by (cases d) auto
  have l1: "forUpto 1 (d - 1) (ctor_level H) ([0 \<mapsto> z], [0 \<mapsto> z], [0 \<mapsto> Map.empty])
          = Inr (zeroMap H z d, zeroMap H z d, emptyRows d)"
    using ctor_levels [of d' H z] by (simp add: d')
  have l2: "forUpto 1 (d - 1) (ctor_seed_level H d z (zeroMap H z d)) (emptyRows d)
          = Inr (seededRows H z d d)"
    using ctor_seed_levels [of d' d H z] by (simp add: d')
  have top: "hashLeftRight H (zeroMap H z d (d - 1)) (zeroMap H z d (d - 1))
               = Inr (H (zerosByLevel H z (d - 1)) (zerosByLevel H z (d - 1)))"
    using assms by (simp add: zeroMap_def hashLeftRight_def)
  have nz: "(d = 0) = False" using assms by simp
  show ?thesis
    unfolding construct_def l1 bindE_Inr prod.case l2 Let_def nz if_False top
    by (rule refl)
qed

lemma construct_zero: "construct H 0 z = Inl TypeError"
  by (simp add: construct_def hashLeftRight_def)

section \<open>Levels of insert and leafExists\<close>

lemma storePath_row:
  "filledPaths t i = Some row \<Longrightarrow>
   storePath t i j v = Inr (t\<lparr>filledPaths := (filledPaths t)(i \<mapsto> row(j := v))\<rparr>)"
  by (simp add: storePath_def setPath_def)

lemma hashIn_Some: "hashIn H t (Some l) (Some r) = Inr (H l r)"
  by (simp add: hashIn_def hashLeftRight_def)

lemma insert_level_even:
  assumes "filledPaths t i = Some row" "zeros t i = Some zi" "c mod 2 = 0"
  shows "insert_level H i (t, c, h) =
     Inr (t\<lparr>filledSubtrees := (filledSubtrees t)(i \<mapsto> h),
            filledPaths := (filledPaths t)(i \<mapsto> row(c \<mapsto> h, c + 1 \<mapsto> zi))\<rparr>,
          c div 2, H h zi)"
  using assms by (simp add: insert_level_def storePath_row hashIn_Some Let_def)

lemma insert_level_odd:
  assumes "filledPaths t i = Some row" "filledSubtrees t i = Some fi" "c mod 2 \<noteq> 0"
  shows "insert_level H i (t, c, h) =
     Inr (t\<lparr>filledPaths := (filledPaths t)(i \<mapsto> row(c - 1 \<mapsto> fi, c \<mapsto> h))\<rparr>,
          c div 2, H fi h)"
  using assms by (simp add: insert_level_def storePath_row hashIn_Some Let_def)

lemma update_level_even:
  assumes "filledPaths t i = Some row" "pathAt path i = Some s" "c mod 2 = 0"
  shows "update_level H path i (t, c, h) =
     Inr (t\<lparr>filledPaths := (filledPaths t)(i \<mapsto> row(c \<mapsto> h, c + 1 \<mapsto> s))\<rparr>,
          c div 2, H h s)"
  using assms by (simp add: update_level_def storePath_row hashIn_Some Let_def)

lemma update_level_odd:
  assumes "filledPaths t i = Some row" "pathAt path i = Some s" "c mod 2 \<noteq> 0"
  shows "update_level H path i (t, c, h) =
     Inr (t\<lparr>filledPaths := (filledPaths t)(i \<mapsto> row(c - 1 \<mapsto> s, c \<mapsto> h))\<rparr>,
          c div 2, H s h)"
  using assms by (simp add: update_level_def storePath_row hashIn_Some Let_def)

lemma bindE_Inr_iff: "bindE m f = Inr y \<longleftrightarrow> (\<exists>x. m = Inr x \<and> f x = Inr y)"
  by (cases m) simp_all

lemma bindE_Inl_iff: "bindE m f = Inl e \<longleftrightarrow> m = Inl e \<or> (\<exists>x. m = Inr x \<and> f x = Inl e)"
  by (cases m) simp_all

lemma insert_level_defined:
  assumes "i < depth t" "rowsDefined t" "zeros t i \<noteq> None"
  shows "\<exists>t' h'. insert_level H i (t, c, h) = Inr (t', c div 2, h') \<and>
           sameStatic t t' \<and> rowsDefined t'"
proof -
  from assms obtain row zi fi where
    r: "filledPaths t i = Some row" "zeros t i = Some zi" "filledSubtrees t i = Some fi"
    by (auto simp: rowsDefined_def)
  show ?thesis
  proof (cases "c mod 2 = 0")
    case True
    from insert_level_even [OF r(1,2) True] assms(2) show ?thesis
      by (simp add: sameStatic_def rowsDefined_def)
  next
    case False
    from insert_level_odd [OF r(1,3) False] assms(2) show ?thesis
      by (simp add: sameStatic_def rowsDefined_def)
  qed
qed

lemma sameStatic_refl: "sameStatic t t"
  by (simp add: sameStatic_def)

lemma sameStatic_trans: "sameStatic a b \<Longrightarrow> sameStatic b c \<Longrightarrow> sameStatic a c"
  by (simp add: sameStatic_def)

lemma div_pow_step: "(c::nat) div 2 ^ k div 2 = c div 2 ^ Suc k"
  by (simp add: div_mult2_eq [symmetric] mult.commute)

lemma insert_loop_defined:
  assumes "n \<le> depth t" "rowsDefined t" "\<forall>i < depth t. zeros t i \<noteq> None"
  shows "\<exists>t' h'. forUpto 0 n (insert_level H) (t, c, h) = Inr (t', c div 2 ^ n, h') \<and>
           sameStatic t t' \<and> rowsDefined t'"
proof -
  let ?Q = "\<lambda>k (s :: 'a MerkleTree \<times> nat \<times> 'a). case s of (t', c', h') \<Rightarrow>
              c' = c div 2 ^ k \<and> sameStatic t t' \<and> rowsDefined t'"
  have "\<exists>s'. forUpto 0 n (insert_level H) (t, c, h) = Inr s' \<and> ?Q n s'"
  proof (rule forUpto_invariant)
    show "?Q 0 (t, c, h)" using assms(2) by (simp add: sameStatic_refl)
  next
    fix k s assume k: "k < n" and q: "?Q k s"
    obtain t1 c1 h1 where s: "s = (t1, c1, h1)" by (cases s) auto
    from q s have q1: "c1 = c div 2 ^ k" "sameStatic t t1" "rowsDefined t1" by auto
    have "k < depth t1" "zeros t1 k \<noteq> None"
      using k assms(1,3) q1(2) by (auto simp: sameStatic_def)
    from insert_level_defined [OF this(1) q1(3) this(2), of H c1 h1]
    obtain t2 h2 where "insert_level H k (t1, c1, h1) = Inr (t2, c1 div 2, h2)"
      "sameStatic t1 t2" "rowsDefined t2" by blast
    then show "\<exists>s'. insert_level H (0 + k) s = Inr s' \<and> ?Q (Suc k) s'"
      using q1 s by (auto simp: div_pow_step simp del: power_Suc intro: sameStatic_trans)
  qed
  then show ?thesis by auto
qed

lemma wellFormed_rows: "wellFormed H t \<Longrightarrow> rowsDefined t"
  by (simp add: wellFormed_def rowsDefined_def)

lemma wellFormed_zeros: "wellFormed H t \<Longrightarrow> i < depth t \<Longrightarrow> zeros t i = Some (zerosByLevel H (zeroValue t) i)"
  by (simp add: wellFormed_def zeroMap_def)

lemma insert_full:
  "leafNumber t \<le> nextIndex t \<Longrightarrow> insert H t leaf = Inl (CapacityExceeded, t)"
  by (simp add: insert_def)

lemma insert_wellFormed:
  assumes wf: "wellFormed H t" and room: "nextIndex t < leafNumber t"
  shows "\<exists>t'. insert H t leaf = Inr t' \<and> wellFormed H t' \<and>
           nextIndex t' = nextIndex t + 1 \<and> leaves t' = leaves t @ [leaf] \<and>
           depth t' = depth t \<and> zeroValue t' = zeroValue t"
proof -
  let ?t0 = "t\<lparr>nextIndex := nextIndex t + 1\<rparr>"
  have r0: "rowsDefined ?t0" using wellFormed_rows [OF wf] by (simp add: rowsDefined_def)
  have z0: "\<forall>i < depth ?t0. zeros ?t0 i \<noteq> None"
    using wellFormed_zeros [OF wf] by simp
  from insert_loop_defined [OF order_refl r0 z0, of H "nextIndex t" leaf]
  obtain t1 h1 where
    loop: "forUpto 0 (depth ?t0) (insert_level H) (?t0, nextIndex t, leaf)
             = Inr (t1, nextIndex t div 2 ^ depth ?t0, h1)"
    and st: "sameStatic ?t0 t1" and rd: "rowsDefined t1" by blast
  have ins: "insert H t leaf = Inr (t1\<lparr>root := h1, leaves := leaves t1 @ [leaf]\<rparr>)"
    using room loop by (simp add: insert_def Let_def)
  show ?thesis
    unfolding ins using wf st rd room
    by (simp add: wellFormed_def sameStatic_def rowsDefined_def)
qed

lemma forUpto_success_invariant:
  assumes run: "forUpto lo n body s = Inr s'"
    and init: "Q 0 s"
    and step: "\<And>k s s'. k < n \<Longrightarrow> Q k s \<Longrightarrow> body (lo + k) s = Inr s' \<Longrightarrow> Q (Suc k) s'"
  shows "Q n s'"
  using run step
proof (induction n arbitrary: s')
  case 0
  then show ?case using init by simp
next
  case (Suc n)
  from Suc.prems(1) obtain s1 where s1: "forUpto lo n body s = Inr s1" "body (lo + n) s1 = Inr s'"
    by (auto simp: bindE_Inr_iff)
  have "Q n s1" by (rule Suc.IH [OF s1(1)]) (simp add: Suc.prems(2))
  then show ?case using Suc.prems(2) [of n s1 s'] s1(2) by simp
qed

lemma leafExists_level_Some:
  assumes "pathAt path i = Some s"
  shows "leafExists_level H path i (c, Some h) =
           Inr (c div 2, Some (if c mod 2 = 0 then H h s else H s h))"
  using assms by (simp add: leafExists_level_def hashLeftRight_def)

lemma leafExists_level_success:
  assumes "leafExists_level H path i (c, l) = Inr s'"
  shows "pathAt path i \<noteq> None \<and> l \<noteq> None \<and> snd s' \<noteq> None"
  using assms
  by (auto simp: leafExists_level_def hashLeftRight_def bindE_Inr_iff
           split: if_splits option.splits)

lemma leafExists_loop_climb:
  assumes "pathDefined path n"
  shows "forUpto 0 n (leafExists_level H path) (k, Some leaf) =
           Inr (k div 2 ^ n, Some (climb H k leaf (pathValue path) n))"
  using assms
proof (induction n)
  case 0
  show ?case by simp
next
  case (Suc n)
  have pd: "pathDefined path n" using Suc.prems by (simp add: pathDefined_def)
  have "pathAt path n = Some (pathValue path n)"
    using Suc.prems by (auto simp: pathDefined_def pathValue_def)
  from leafExists_level_Some [OF this, of H "k div 2 ^ n" "climb H k leaf (pathValue path) n"]
  show ?case
    by (simp only: forUpto.simps Suc.IH [OF pd] bindE_Inr add_0 div_pow_step climb.simps)
qed

lemma leafExists_loop_success:
  assumes "forUpto 0 n (leafExists_level H path) (k, l) = Inr s'"
  shows "pathDefined path n \<and> (0 < n \<longrightarrow> l \<noteq> None)"
  using assms
proof (induction n arbitrary: s')
  case 0
  show ?case by (simp add: pathDefined_def)
next
  case (Suc n)
  from Suc.prems obtain s1 where
    s1: "forUpto 0 n (leafExists_level H path) (k, l) = Inr s1"
        "leafExists_level H path n s1 = Inr s'"
    by (auto simp: bindE_Inr_iff)
  obtain c1 l1 where c1: "s1 = (c1, l1)" by (cases s1) auto
  from leafExists_level_success [of H path n c1 l1 s'] s1(2) c1
  have d: "pathAt path n \<noteq> None" "l1 \<noteq> None" by auto
  have "n = 0 \<Longrightarrow> l1 = l" using s1(1) c1 by simp
  with Suc.IH [OF s1(1)] d show ?case
    by (auto simp: pathDefined_def less_Suc_eq)
qed

lemma leafExists_eq:
  assumes "leafIndex < nextIndex t" "pathDefined path (depth t)"
  shows "leafExists H t leafIndex (Some leaf) path =
           Inr (root t = climb H leafIndex leaf (pathValue path) (depth t))"
  using assms by (simp add: leafExists_def leafExists_loop_climb)

lemma leafExists_not_inserted:
  "nextIndex t \<le> leafIndex \<Longrightarrow> leafExists H t leafIndex leaf path = Inl LeafNotInserted"
  by (simp add: leafExists_def)

lemma leafExists_success:
  assumes "leafExists H t leafIndex leaf path = Inr b"
  shows "leafIndex < nextIndex t \<and> pathDefined path (depth t) \<and> (0 < depth t \<longrightarrow> leaf \<noteq> None)"
proof -
  from assms have lt: "leafIndex < nextIndex t"
    by (auto simp: leafExists_def split: if_splits)
  with assms obtain s' where
    "forUpto 0 (depth t) (leafExists_level H path) (leafIndex, leaf) = Inr s'"
    by (auto simp: leafExists_def bindE_Inr_iff)
  from leafExists_loop_success [OF this] lt show ?thesis by simp
qed

lemma leafExists_errors:
  assumes "leafExists H t leafIndex leaf path = Inl e"
  shows "e = LeafNotInserted \<and> nextIndex t \<le> leafIndex \<or>
         e = TypeError \<and> leafIndex < nextIndex t"
proof (cases "nextIndex t \<le> leafIndex")
  case True
  with assms show ?thesis by (simp add: leafExists_def)
next
  case False
  have lvl: "leafExists_level H path i s = Inl e' \<Longrightarrow> e' = TypeError" for i s e'
    by (cases s)
       (auto simp: leafExists_level_def hashLeftRight_def bindE_Inl_iff
             split: if_splits option.splits)
  have loop: "forUpto 0 n (leafExists_level H path) s = Inl e' \<Longrightarrow> e' = TypeError" for n s e'
    by (induction n) (auto simp: bindE_Inl_iff dest: lvl)
  from assms False have "e = TypeError"
    by (auto simp: leafExists_def bindE_Inl_iff dest: loop split: prod.splits)
  with False show ?thesis by simp
qed

section \<open>update, well-formedness and reachable trees\<close>

lemma update_level_success:
  assumes "update_level H path i (t, c, h) = Inr (t', c', h')"
  shows "\<exists>row s. filledPaths t i = Some row \<and> pathAt path i = Some s \<and>
           c' = c div 2 \<and>
           h' = (if c mod 2 = 0 then H h s else H s h) \<and>
           t' = t\<lparr>filledPaths := (filledPaths t)(i \<mapsto>
                  (if c mod 2 = 0 then row(c \<mapsto> h, c + 1 \<mapsto> s) else row(c - 1 \<mapsto> s, c \<mapsto> h)))\<rparr>"
proof -
  obtain row where row: "filledPaths t i = Some row"
    using assms
    by (cases "filledPaths t i")
       (auto simp: update_level_def storePath_def setPath_def Let_def split: if_splits)
  obtain s where s: "pathAt path i = Some s"
    using assms row
    by (cases "pathAt path i")
       (auto simp: update_level_def storePath_row hashIn_def hashLeftRight_def Let_def split: if_splits)
  show ?thesis
  proof (cases "c mod 2 = 0")
    case True
    from update_level_even [OF row s True, of H h] assms True row s show ?thesis by auto
  next
    case False
    from update_level_odd [OF row s False, of H h] assms False row s show ?thesis by auto
  qed
qed

lemma update_level_defined:
  assumes "filledPaths t i \<noteq> None" "pathAt path i \<noteq> None"
  shows "\<exists>s'. update_level H path i (t, c, h) = Inr s'"
proof -
  from assms obtain row s where r: "filledPaths t i = Some row" "pathAt path i = Some s" by auto
  show ?thesis
    using update_level_even [OF r, of c H h] update_level_odd [OF r, of c H h]
    by (cases "c mod 2 = 0") auto
qed

lemma updateInv_init: "updateInv H t leafIndex leaf path 0 (t, leafIndex, leaf)"
  by (simp add: updateInv_def sameStatic_refl rowFrame_def pathDefined_def)

lemma updateInv_step:
  assumes inv: "updateInv H t leafIndex leaf path k s"
    and step: "update_level H path k s = Inr s'"
  shows "updateInv H t leafIndex leaf path (Suc k) s'"
proof -
  obtain t1 c1 h1 where s: "s = (t1, c1, h1)" by (cases s) auto
  obtain t2 c2 h2 where s': "s' = (t2, c2, h2)" by (cases s') auto
  from inv s have i1: "c1 = leafIndex div 2 ^ k" "h1 = climb H leafIndex leaf (pathValue path) k"
    "sameStatic t t1" "filledSubtrees t1 = filledSubtrees t"
    "rowFrame leafIndex k (filledPaths t) (filledPaths t1)" "pathDefined path k"
    by (auto simp: updateInv_def)
  from update_level_success [of H path k t1 c1 h1 t2 c2 h2] step s s'
  obtain row sv where u: "filledPaths t1 k = Some row" "pathAt path k = Some sv"
    "c2 = c1 div 2" "h2 = (if c1 mod 2 = 0 then H h1 sv else H sv h1)"
    "t2 = t1\<lparr>filledPaths := (filledPaths t1)(k \<mapsto>
                  (if c1 mod 2 = 0 then row(c1 \<mapsto> h1, c1 + 1 \<mapsto> sv) else row(c1 - 1 \<mapsto> sv, c1 \<mapsto> h1)))\<rparr>"
    by blast
  have pv: "pathValue path k = sv" using u(2) by (simp add: pathValue_def)
  have c2: "c2 = leafIndex div 2 ^ Suc k" using u(3) i1(1) by (simp only: div_pow_step)
  have h2: "h2 = climb H leafIndex leaf (pathValue path) (Suc k)"
    using u(4) i1(1,2) pv by simp
  have st: "sameStatic t t2" using i1(3) u(5) by (simp add: sameStatic_def)
  have fs: "filledSubtrees t2 = filledSubtrees t" using i1(4) u(5) by simp
  have pd: "pathDefined path (Suc k)" using i1(6) u(2) by (auto simp: pathDefined_def less_Suc_eq)
  have old: "filledPaths t k = Some row" using i1(5) u(1) by (auto simp: rowFrame_def)
  have rf: "rowFrame leafIndex (Suc k) (filledPaths t) (filledPaths t2)"
    unfolding rowFrame_def
  proof (intro allI conjI impI)
    fix i assume "Suc k \<le> i"
    then show "filledPaths t2 i = filledPaths t i"
      using i1(5) u(5) by (auto simp: rowFrame_def)
  next
    fix i assume i: "i < Suc k"
    show "\<exists>r r'. filledPaths t i = Some r \<and> filledPaths t2 i = Some r' \<and>
            (\<forall>j. j \<noteq> leafIndex div 2 ^ i \<longrightarrow> j \<noteq> siblingIndex leafIndex i \<longrightarrow> r' j = r j)"
    proof (cases "i = k")
      case True
      show ?thesis using old u(5) i1(1) True
        by (auto simp: siblingIndex_def Let_def)
    next
      case False
      with i have "i < k" by simp
      with i1(5) obtain r r' where "filledPaths t i = Some r" "filledPaths t1 i = Some r'"
        "\<forall>j. j \<noteq> leafIndex div 2 ^ i \<longrightarrow> j \<noteq> siblingIndex leafIndex i \<longrightarrow> r' j = r j"
        unfolding rowFrame_def by blast
      then show ?thesis using u(5) False by auto
    qed
  qed
  show ?thesis
    unfolding updateInv_def s' prod.case using c2 h2 st fs rf pd by blast
qed

lemma update_loop_success:
  assumes "forUpto 0 n (update_level H path) (t, leafIndex, leaf) = Inr s'"
  shows "updateInv H t leafIndex leaf path n s'"
  using assms
proof (rule forUpto_success_invariant)
  show "updateInv H t leafIndex leaf path 0 (t, leafIndex, leaf)" by (rule updateInv_init)
next
  fix k s s' assume "updateInv H t leafIndex leaf path k s" "update_level H path (0 + k) s = Inr s'"
  then show "updateInv H t leafIndex leaf path (Suc k) s'"
    using updateInv_step [of H t leafIndex leaf path k s s'] by simp
qed

lemma update_loop_defined:
  assumes "n \<le> depth t" "\<forall>i < depth t. filledPaths t i \<noteq> None" "pathDefined path n"
  shows "\<exists>s'. forUpto 0 n (update_level H path) (t, leafIndex, leaf) = Inr s'"
  using assms
proof (induction n)
  case 0
  show ?case by simp
next
  case (Suc n)
  from Suc.prems have "pathDefined path n" by (simp add: pathDefined_def)
  with Suc obtain s1 where s1: "forUpto 0 n (update_level H path) (t, leafIndex, leaf) = Inr s1"
    by auto
  obtain t1 c1 h1 where c1: "s1 = (t1, c1, h1)" by (cases s1) auto
  from update_loop_success [OF s1] c1
  have "rowFrame leafIndex n (filledPaths t) (filledPaths t1)" by (simp add: updateInv_def)
  then have "filledPaths t1 n = filledPaths t n" by (simp add: rowFrame_def)
  then have a: "filledPaths t1 n \<noteq> None" using Suc.prems by simp
  have b: "pathAt path n \<noteq> None" using Suc.prems by (simp add: pathDefined_def)
  from update_level_defined [OF a b, of H c1 h1]
  obtain s2 where "update_level H path n (t1, c1, h1) = Inr s2" by auto
  then have "forUpto 0 (Suc n) (update_level H path) (t, leafIndex, leaf) = Inr s2"
    using s1 c1 by simp
  then show ?case ..
qed

lemma update_not_inserted:
  "nextIndex t \<le> leafIndex \<Longrightarrow> update H t leafIndex leaf path = Inl (LeafNotInserted, t)"
  by (simp add: update_def leafExists_not_inserted)

lemma update_check_throws:
  "leafExists H t leafIndex (leafAt (leaves t) leafIndex) path = Inl e \<Longrightarrow>
   update H t leafIndex leaf path = Inl (e, t)"
  by (simp add: update_def)

lemma update_mismatch:
  "leafExists H t leafIndex (leafAt (leaves t) leafIndex) path = Inr False \<Longrightarrow>
   update H t leafIndex leaf path = Inl (ProofMismatch, t)"
  by (simp add: update_def)

lemma update_accepts:
  assumes rows: "\<forall>i < depth t. filledPaths t i \<noteq> None"
    and ok: "leafExists H t leafIndex (leafAt (leaves t) leafIndex) path = Inr True"
  shows "\<exists>t1 c h. update H t leafIndex leaf path
                   = Inr (t1\<lparr>root := h, leaves := (leaves t1)[leafIndex := leaf]\<rparr>) \<and>
           updateInv H t leafIndex leaf path (depth t) (t1, c, h)"
proof -
  from leafExists_success [OF ok] have pd: "pathDefined path (depth t)" by simp
  from update_loop_defined [OF order_refl rows pd, of H leafIndex leaf]
  obtain s' where loop: "forUpto 0 (depth t) (update_level H path) (t, leafIndex, leaf) = Inr s'"
    by blast
  obtain t1 c h where s': "s' = (t1, c, h)" by (cases s') auto
  from update_loop_success [OF loop] s'
  have "updateInv H t leafIndex leaf path (depth t) (t1, c, h)" by simp
  moreover have "update H t leafIndex leaf path
                   = Inr (t1\<lparr>root := h, leaves := (leaves t1)[leafIndex := leaf]\<rparr>)"
    using ok loop s' by (simp add: update_def)
  ultimately show ?thesis by blast
qed

lemma update_success:
  assumes "update H t leafIndex leaf path = Inr t'"
  shows "leafExists H t leafIndex (leafAt (leaves t) leafIndex) path = Inr True \<and>
         (\<exists>t1 c h. t' = t1\<lparr>root := h, leaves := (leaves t1)[leafIndex := leaf]\<rparr> \<and>
            updateInv H t leafIndex leaf path (depth t) (t1, c, h))"
proof -
  from assms have ok: "leafExists H t leafIndex (leafAt (leaves t) leafIndex) path = Inr True"
    by (auto simp: update_def split: sum.splits if_splits)
  with assms obtain s' where
    loop: "forUpto 0 (depth t) (update_level H path) (t, leafIndex, leaf) = Inr s'"
    and t': "(case s' of (t1, _, h) \<Rightarrow> Inr (t1\<lparr>root := h, leaves := (leaves t1)[leafIndex := leaf]\<rparr>))
               = (Inr t' :: (error \<times> 'a MerkleTree) + 'a MerkleTree)"
    by (auto simp: update_def bindE_Inr_iff)
  obtain t1 c h where s': "s' = (t1, c, h)" by (cases s') auto
  from update_loop_success [OF loop] s'
  have "updateInv H t leafIndex leaf path (depth t) (t1, c, h)" by simp
  moreover from t' s' have "t' = t1\<lparr>root := h, leaves := (leaves t1)[leafIndex := leaf]\<rparr>"
    by simp
  ultimately show ?thesis using ok by blast
qed

lemma update_index_in_range:
  assumes "update H t leafIndex leaf path = Inr t'"
  shows "leafIndex < length (leaves t)"
proof -
  from update_success [OF assms]
  have ok: "leafExists H t leafIndex (leafAt (leaves t) leafIndex) path = Inr True" by simp
  show ?thesis
  proof (cases "depth t")
    case 0
    with ok have "Some (root t) = leafAt (leaves t) leafIndex"
      by (auto simp: leafExists_def split: if_splits)
    then show ?thesis by (auto simp: leafAt_def split: if_splits)
  next
    case (Suc d)
    with leafExists_success [OF ok] have "leafAt (leaves t) leafIndex \<noteq> None" by simp
    then show ?thesis by (auto simp: leafAt_def split: if_splits)
  qed
qed

lemma update_wellFormed:
  assumes wf: "wellFormed H t" and up: "update H t leafIndex leaf path = Inr t'"
  shows "wellFormed H t'"
proof -
  from update_success [OF up] obtain t1 c h where
    t': "t' = t1\<lparr>root := h, leaves := (leaves t1)[leafIndex := leaf]\<rparr>"
    and inv: "updateInv H t leafIndex leaf path (depth t) (t1, c, h)" by blast
  from inv have st: "sameStatic t t1" and fs: "filledSubtrees t1 = filledSubtrees t"
    and rf: "rowFrame leafIndex (depth t) (filledPaths t) (filledPaths t1)"
    by (auto simp: updateInv_def)
  have "\<forall>i < depth t. filledPaths t1 i \<noteq> None"
    using rf by (auto simp: rowFrame_def)
  then show ?thesis
    using wf st fs by (simp add: t' wellFormed_def sameStatic_def)
qed

lemma update_atomic:
  assumes wf: "wellFormed H t" and up: "update H t leafIndex leaf path = Inl (e, t')"
  shows "t' = t"
proof (cases "leafExists H t leafIndex (leafAt (leaves t) leafIndex) path")
  case (Inl e')
  from update_check_throws [OF this, of leaf] up show ?thesis by simp
next
  case (Inr b)
  show ?thesis
  proof (cases b)
    case False
    with Inr update_mismatch [of H t leafIndex path leaf] up show ?thesis by simp
  next
    case True
    have "\<forall>i < depth t. filledPaths t i \<noteq> None" using wf by (simp add: wellFormed_def)
    from update_accepts [OF this, of H leafIndex path leaf] Inr True up show ?thesis by auto
  qed
qed

lemma construct_wellFormed:
  assumes "construct H d z = Inr t"
  shows "wellFormed H t"
proof (cases d)
  case 0
  with assms show ?thesis by (simp add: construct_zero)
next
  case (Suc d')
  then have pos: "0 < d" by simp
  from construct_eq [OF this, of H z] assms pos show ?thesis
    by (auto simp: wellFormed_def zeroMap_def seededRows_def)
qed

lemma invoke_wellFormed:
  assumes wf: "wellFormed H t"
  shows "wellFormed H (snd (invoke H t c))"
proof (cases c)
  case (Insert leaf)
  show ?thesis
  proof (cases "nextIndex t < leafNumber t")
    case True
    from insert_wellFormed [OF wf True, of leaf] Insert show ?thesis by auto
  next
    case False
    then have "insert H t leaf = Inl (CapacityExceeded, t)" by (simp add: insert_full)
    with wf Insert show ?thesis by simp
  qed
next
  case (LeafExists k l p)
  with wf show ?thesis by (simp split: sum.splits)
next
  case (Update k leaf p)
  show ?thesis
  proof (cases "update H t k leaf p")
    case (Inl a)
    obtain e t' where a: "a = (e, t')" by (cases a) auto
    with Inl update_atomic [OF wf, of k leaf p e t'] wf Update show ?thesis by simp
  next
    case (Inr t')
    with update_wellFormed [OF wf Inr] Update show ?thesis by simp
  qed
next
  case (GetPathUpdate k)
  with wf show ?thesis by (simp split: sum.splits prod.splits)
qed

lemma reachable_wellFormed: "reachable H t \<Longrightarrow> wellFormed H t"
  by (induction rule: reachable.induct) (auto intro: construct_wellFormed invoke_wellFormed)

section \<open>getPathUpdate\<close>

lemma getPath_pathEntry:
  "filledPaths t i \<noteq> None \<Longrightarrow> getPath (filledPaths t) i j = Inr (pathEntry t i j)"
  by (auto simp: getPath_def pathEntry_def)

lemma getPathUpdate_level_eq:
  assumes "filledPaths t i \<noteq> None" "c = leafIndex div 2 ^ i"
  shows "getPathUpdate_level t i (c, path, idx) =
           Inr (c div 2, path @ [pathEntry t i (siblingIndex leafIndex i)],
                idx @ [(i, siblingIndex leafIndex i)])"
  using assms
  by (auto simp: getPathUpdate_level_def getPath_pathEntry siblingIndex_def Let_def)

lemma getPathUpdate_loop:
  assumes "\<forall>i < n. filledPaths t i \<noteq> None"
  shows "forUpto 0 n (getPathUpdate_level t) (leafIndex, [], []) =
           Inr (leafIndex div 2 ^ n,
                map (\<lambda>i. pathEntry t i (siblingIndex leafIndex i)) [0..<n],
                map (\<lambda>i. (i, siblingIndex leafIndex i)) [0..<n])"
  using assms
proof (induction n)
  case 0
  show ?case by simp
next
  case (Suc n)
  have rows: "\<forall>i < n. filledPaths t i \<noteq> None" and row: "filledPaths t n \<noteq> None"
    using Suc.prems by simp_all
  show ?case
    by (simp only: forUpto.simps Suc.IH [OF rows] bindE_Inr add_0
          getPathUpdate_level_eq [OF row refl] div_pow_step upt_Suc_append [OF le0] map_append
          list.map)
qed

lemma getPathUpdate_eq:
  assumes "\<forall>i < depth t. filledPaths t i \<noteq> None" "leafIndex < nextIndex t"
  shows "getPathUpdate t leafIndex =
           Inr (map (\<lambda>i. pathEntry t i (siblingIndex leafIndex i)) [0..<depth t],
                map (\<lambda>i. (i, siblingIndex leafIndex i)) [0..<depth t])"
  using assms by (simp add: getPathUpdate_def getPathUpdate_loop)

lemma getPathUpdate_not_inserted:
  "nextIndex t \<le> leafIndex \<Longrightarrow> getPathUpdate t leafIndex = Inl LeafNotInserted"
  by (simp add: getPathUpdate_def)

lemma halving_closed_form:
  "((\<lambda>curIdx. curIdx div 2) ^^ i) (leafIndex :: nat) = leafIndex div 2 ^ i"
  by (induction i) (simp_all add: div_pow_step del: power_Suc)

section \<open>Trees built by inserts: the root is the Merkle root\<close>

lemma less_next_block: "0 < m \<Longrightarrow> (n::nat) < (n div m + 1) * m"
  using dividend_less_div_times [of m n] by (simp add: algebra_simps)

lemma pred_div_same:
  assumes "(n::nat) mod m \<noteq> 0"
  shows "(n - 1) div m = n div m"
proof (cases "m = 0")
  case True
  then show ?thesis by simp
next
  case False
  have "n mod m + n div m * m = n" by (rule mod_div_mult_eq)
  then have "n - 1 = (n mod m - 1) + n div m * m" using assms by simp
  then have "(n - 1) div m = ((n mod m - 1) + n div m * m) div m" by simp
  also have "\<dots> = (n mod m - 1) div m + n div m" using False by simp
  also have "(n mod m - 1) div m = 0"
    using False by (simp add: less_imp_diff_less)
  finally show ?thesis by simp
qed

lemma odd_block_mod:
  assumes "(n div 2 ^ k) mod 2 \<noteq> (0::nat)"
  shows "n mod 2 ^ Suc k \<noteq> 0"
proof
  assume "n mod 2 ^ Suc k = 0"
  then obtain q where "n = 2 ^ Suc k * q" by (auto simp: mod_eq_0_iff_dvd)
  then have "n = 2 ^ k * (2 * q)" by simp
  then have "n div 2 ^ k = 2 * q" by (simp del: mult_cancel_left)
  with assms show False by simp
qed

lemma odd_block_pred:
  assumes "(n div 2 ^ k) mod 2 \<noteq> (0::nat)"
  shows "2 * ((n - 1) div 2 ^ Suc k) = n div 2 ^ k - 1"
proof -
  have "(n - 1) div 2 ^ Suc k = n div 2 ^ Suc k"
    using odd_block_mod [OF assms] by (rule pred_div_same)
  also have "\<dots> = n div 2 ^ k div 2" by (simp only: div_pow_step)
  finally have e: "(n - 1) div 2 ^ Suc k = n div 2 ^ k div 2" .
  define c where "c = n div 2 ^ k"
  have "c mod 2 \<noteq> 0" using assms by (simp add: c_def)
  then have "2 * (c div 2) = c - 1" by presburger
  then show ?thesis unfolding e c_def .
qed

lemma node_empty: "length ls \<le> j * 2 ^ i \<Longrightarrow> node H z ls i j = zerosByLevel H z i"
proof (induction i arbitrary: j)
  case 0
  then show ?case by simp
next
  case (Suc i)
  have "length ls \<le> (2 * j) * 2 ^ i" "length ls \<le> (2 * j + 1) * 2 ^ i"
    using Suc.prems by (simp_all add: algebra_simps)
  then show ?case using Suc.IH by simp
qed

lemma node_append_other:
  "j \<noteq> length ls div 2 ^ i \<Longrightarrow> node H z (ls @ [x]) i j = node H z ls i j"
proof (induction i arbitrary: j)
  case 0
  then show ?case by (auto simp: nth_append)
next
  case (Suc i)
  have "length ls div 2 ^ i div 2 \<noteq> j" using Suc.prems by (simp only: div_pow_step)
  then have "2 * j \<noteq> length ls div 2 ^ i" "2 * j + 1 \<noteq> length ls div 2 ^ i"
    by auto
  then show ?case using Suc.IH by simp
qed

lemma known_step:
  assumes "known d (Suc n) k j" "j \<noteq> n div 2 ^ k" "j \<noteq> siblingIndex n k"
  shows "known d n k j"
proof (cases k)
  case 0
  with assms have "2 * (j div 2) < Suc n" "j \<noteq> n" "j \<noteq> (if n mod 2 = 0 then n + 1 else n - 1)"
    by (simp_all add: known_def siblingIndex_def)
  then have "2 * (j div 2) < n" by presburger
  with 0 show ?thesis by (simp add: known_def)
next
  case (Suc k')
  with assms show ?thesis by (simp add: known_def)
qed

lemma insertInv_step:
  assumes sy: "synced H t" and k: "k < depth t" and room: "nextIndex t < 2 ^ depth t"
    and inv: "insertInv H t leaf k s"
  shows "\<exists>s'. insert_level H k s = Inr s' \<and> insertInv H t leaf (Suc k) s'"
proof -
  define n where "n = nextIndex t"
  define z where "z = zeroValue t"
  define ls where "ls = leaves t"
  define c where "c = n div 2 ^ k"
  obtain t1 c1 h where s: "s = (t1, c1, h)" by (cases s) auto
  have wf: "wellFormed H t" using sy by (simp add: synced_def)
  have len: "length ls = n" using wf by (simp add: wellFormed_def ls_def n_def)
  have zk: "zeros t k = Some (zerosByLevel H z k)"
    using wellFormed_zeros [OF wf k] by (simp add: z_def)
  obtain row where row: "filledPaths t k = Some row"
    using wf k by (auto simp: wellFormed_def)
  have oldfp: "row j = Some (node H z ls k j)" if "known (depth t) n k j" for j
    using sy k that row by (auto simp: synced_def pathEntry_def n_def z_def ls_def)
  have oldfs: "filledSubtrees t k = Some (node H z ls k (2 * ((n - 1) div 2 ^ Suc k)))" if "0 < n"
    using sy k that by (simp add: synced_def n_def z_def ls_def)
  from inv s have i1: "c1 = c" "h = node H z (ls @ [leaf]) k c"
    and st: "sameStatic (t\<lparr>nextIndex := n + 1\<rparr>) t1"
    and rest: "\<And>i. k \<le> i \<Longrightarrow> filledSubtrees t1 i = filledSubtrees t i \<and> filledPaths t1 i = filledPaths t i"
    and below: "\<And>i. i < k \<Longrightarrow> filledPaths t1 i \<noteq> None \<and>
           filledSubtrees t1 i = Some (node H z (ls @ [leaf]) i (2 * (n div 2 ^ Suc i))) \<and>
           (\<forall>j. known (depth t) (n + 1) i j \<longrightarrow> pathEntry t1 i j = Some (node H z (ls @ [leaf]) i j))"
    by (simp_all add: insertInv_def n_def z_def ls_def c_def)
  have row1: "filledPaths t1 k = Some row" using rest [of k] row by simp
  have zk1: "zeros t1 k = Some (zerosByLevel H z k)" using st zk by (simp add: sameStatic_def)
  have other: "node H z (ls @ [leaf]) k j = node H z ls k j" if "j \<noteq> c" for j
    using that node_append_other [of j ls k H z leaf] by (simp add: len c_def)
  have half: "c div 2 = n div 2 ^ Suc k" unfolding c_def by (rule div_pow_step)
  show ?thesis
  proof (cases "c mod 2 = 0")
    case True
    then have dbl: "2 * (c div 2) = c" by presburger
    have sib: "siblingIndex n k = c + 1" using True by (simp add: siblingIndex_def c_def)
    define t2 where "t2 = t1\<lparr>filledSubtrees := (filledSubtrees t1)(k \<mapsto> h),
            filledPaths := (filledPaths t1)(k \<mapsto> row(c \<mapsto> h, c + 1 \<mapsto> zerosByLevel H z k))\<rparr>"
    have run: "insert_level H k s = Inr (t2, c div 2, H h (zerosByLevel H z k))"
      unfolding s i1(1) t2_def by (rule insert_level_even [OF row1 zk1 True])
    have "n < (c + 1) * 2 ^ k" unfolding c_def by (rule less_next_block) simp
    then have "length (ls @ [leaf]) \<le> (c + 1) * 2 ^ k" using len by simp
    then have empty: "node H z (ls @ [leaf]) k (c + 1) = zerosByLevel H z k" by (rule node_empty)
    have up: "node H z (ls @ [leaf]) (Suc k) (c div 2) = H h (zerosByLevel H z k)"
      using dbl empty i1(2) by simp
    have a: "sameStatic (t\<lparr>nextIndex := n + 1\<rparr>) t2" using st by (simp add: t2_def sameStatic_def)
    have b: "filledSubtrees t2 i = filledSubtrees t i \<and> filledPaths t2 i = filledPaths t i"
      if "Suc k \<le> i" for i using rest [of i] that by (simp add: t2_def)
    have cc: "filledPaths t2 i \<noteq> None \<and>
           filledSubtrees t2 i = Some (node H z (ls @ [leaf]) i (2 * (n div 2 ^ Suc i))) \<and>
           (\<forall>j. known (depth t) (n + 1) i j \<longrightarrow> pathEntry t2 i j = Some (node H z (ls @ [leaf]) i j))"
      if "i < Suc k" for i
    proof (cases "i = k")
      case False
      with that have "i < k" by simp
      from below [OF this] False show ?thesis by (simp add: t2_def pathEntry_def)
    next
      case ik: True
      have fs: "filledSubtrees t2 k = Some (node H z (ls @ [leaf]) k (2 * (n div 2 ^ Suc k)))"
        using i1(2) dbl half by (simp add: t2_def)
      have fp: "pathEntry t2 k j = Some (node H z (ls @ [leaf]) k j)"
        if kn: "known (depth t) (n + 1) k j" for j
      proof -
        consider "j = c" | "j = c + 1" | "j \<noteq> c" "j \<noteq> c + 1" by blast
        then show ?thesis
        proof cases
          case 1
          then show ?thesis using i1(2) by (simp add: t2_def pathEntry_def)
        next
          case 2
          then show ?thesis using empty by (simp add: t2_def pathEntry_def)
        next
          case 3
          have "known (depth t) n k j"
            using known_step [of "depth t" n k j] kn 3 sib by (simp add: c_def)
          from oldfp [OF this] 3 other [of j] show ?thesis by (simp add: t2_def pathEntry_def)
        qed
      qed
      show ?thesis using fs fp by (simp add: ik t2_def)
    qed
    have "insertInv H t leaf (Suc k) (t2, c div 2, H h (zerosByLevel H z k))"
      unfolding insertInv_def prod.case
      using a b cc up half
      by (simp only: n_def [symmetric] z_def [symmetric] ls_def [symmetric]) simp
    with run show ?thesis by blast
  next
    case False
    then have dbl: "2 * (c div 2) = c - 1" "2 * (c div 2) + 1 = c" "c - 1 \<noteq> c" by presburger+
    have sib: "siblingIndex n k = c - 1" using False by (simp add: siblingIndex_def c_def)
    have "0 < n" using False by (cases "n = 0") (simp_all add: c_def)
    from oldfs [OF this] odd_block_pred [of n k] False
    have fsk: "filledSubtrees t k = Some (node H z ls k (c - 1))" by (simp add: c_def)
    have fsk1: "filledSubtrees t1 k = Some (node H z ls k (c - 1))" using rest [of k] fsk by simp
    have left: "node H z (ls @ [leaf]) k (c - 1) = node H z ls k (c - 1)"
      using other [of "c - 1"] dbl(3) by simp
    define t2 where "t2 = t1\<lparr>filledPaths := (filledPaths t1)(k \<mapsto>
                         row(c - 1 \<mapsto> node H z ls k (c - 1), c \<mapsto> h))\<rparr>"
    have run: "insert_level H k s = Inr (t2, c div 2, H (node H z ls k (c - 1)) h)"
      unfolding s i1(1) t2_def by (rule insert_level_odd [OF row1 fsk1 False])
    have up: "node H z (ls @ [leaf]) (Suc k) (c div 2) = H (node H z ls k (c - 1)) h"
      using dbl left i1(2) by simp
    have a: "sameStatic (t\<lparr>nextIndex := n + 1\<rparr>) t2" using st by (simp add: t2_def sameStatic_def)
    have b: "filledSubtrees t2 i = filledSubtrees t i \<and> filledPaths t2 i = filledPaths t i"
      if "Suc k \<le> i" for i using rest [of i] that by (simp add: t2_def)
    have cc: "filledPaths t2 i \<noteq> None \<and>
           filledSubtrees t2 i = Some (node H z (ls @ [leaf]) i (2 * (n div 2 ^ Suc i))) \<and>
           (\<forall>j. known (depth t) (n + 1) i j \<longrightarrow> pathEntry t2 i j = Some (node H z (ls @ [leaf]) i j))"
      if "i < Suc k" for i
    proof (cases "i = k")
      case False
      with that have "i < k" by simp
      from below [OF this] False show ?thesis by (simp add: t2_def pathEntry_def)
    next
      case ik: True
      have fs: "filledSubtrees t2 k = Some (node H z (ls @ [leaf]) k (2 * (n div 2 ^ Suc k)))"
        using fsk1 left dbl(1) half by (simp add: t2_def)
      have fp: "pathEntry t2 k j = Some (node H z (ls @ [leaf]) k j)"
        if kn: "known (depth t) (n + 1) k j" for j
      proof -
        consider "j = c" | "j = c - 1" "j \<noteq> c" | "j \<noteq> c" "j \<noteq> c - 1" by blast
        then show ?thesis
        proof cases
          case 1
          then show ?thesis using i1(2) by (simp add: t2_def pathEntry_def)
        next
          case 2
          then show ?thesis using left by (simp add: t2_def pathEntry_def)
        next
          case 3
          have "known (depth t) n k j"
            using known_step [of "depth t" n k j] kn 3 sib by (simp add: c_def)
          from oldfp [OF this] 3 other [of j] show ?thesis by (simp add: t2_def pathEntry_def)
        qed
      qed
      show ?thesis using fs fp by (simp add: ik t2_def)
    qed
    have "insertInv H t leaf (Suc k) (t2, c div 2, H (node H z ls k (c - 1)) h)"
      unfolding insertInv_def prod.case
      using a b cc up half
      by (simp only: n_def [symmetric] z_def [symmetric] ls_def [symmetric]) simp
    with run show ?thesis by blast
  qed
qed

lemma insertInv_init:
  assumes "length (leaves t) = nextIndex t"
  shows "insertInv H t leaf 0 (t\<lparr>nextIndex := nextIndex t + 1\<rparr>, nextIndex t, leaf)"
proof -
  have "(leaves t @ [leaf]) ! nextIndex t = leaf"
    using assms nth_append_length [of "leaves t" leaf "[]"] by simp
  then show ?thesis using assms by (simp add: insertInv_def sameStatic_refl)
qed

lemma insert_loop_synced:
  assumes sy: "synced H t" and room: "nextIndex t < 2 ^ depth t"
  shows "\<exists>s'. forUpto 0 (depth t) (insert_level H) (t\<lparr>nextIndex := nextIndex t + 1\<rparr>, nextIndex t, leaf)
                = Inr s' \<and> insertInv H t leaf (depth t) s'"
proof (rule forUpto_invariant)
  have "length (leaves t) = nextIndex t" using sy by (simp add: synced_def wellFormed_def)
  then show "insertInv H t leaf 0 (t\<lparr>nextIndex := nextIndex t + 1\<rparr>, nextIndex t, leaf)"
    by (rule insertInv_init)
next
  fix k s assume "k < depth t" "insertInv H t leaf k s"
  with insertInv_step [OF sy _ room, of k leaf s]
  show "\<exists>s'. insert_level H (0 + k) s = Inr s' \<and> insertInv H t leaf (Suc k) s'" by simp
qed

lemma insert_synced:
  assumes sy: "synced H t" and room: "nextIndex t < 2 ^ depth t"
  shows "\<exists>t'. insert H t leaf = Inr t' \<and> synced H t' \<and> leaves t' = leaves t @ [leaf] \<and>
           depth t' = depth t \<and> zeroValue t' = zeroValue t \<and> nextIndex t' = nextIndex t + 1"
proof -
  have wf: "wellFormed H t" using sy by (simp add: synced_def)
  then have cap: "leafNumber t = 2 ^ depth t" by (simp add: wellFormed_def)
  with room have room': "nextIndex t < leafNumber t" by simp
  from insert_wellFormed [OF wf room', of leaf] obtain t' where
    ins: "insert H t leaf = Inr t'" and wf': "wellFormed H t'"
    and fields: "nextIndex t' = nextIndex t + 1" "leaves t' = leaves t @ [leaf]"
      "depth t' = depth t" "zeroValue t' = zeroValue t"
    by blast
  from insert_loop_synced [OF sy room, of leaf] obtain s' where
    loop: "forUpto 0 (depth t) (insert_level H) (t\<lparr>nextIndex := nextIndex t + 1\<rparr>, nextIndex t, leaf)
             = Inr s'"
    and inv: "insertInv H t leaf (depth t) s'" by blast
  obtain t1 c1 h1 where s': "s' = (t1, c1, h1)" by (cases s') auto
  have t': "t' = t1\<lparr>root := h1, leaves := leaves t1 @ [leaf]\<rparr>"
    using ins loop s' room' by (simp add: insert_def Let_def)
  have "nextIndex t div 2 ^ depth t = 0" using room by simp
  with inv s' have h1: "h1 = node H (zeroValue t) (leaves t @ [leaf]) (depth t) 0"
    and below: "\<And>i. i < depth t \<Longrightarrow>
           filledSubtrees t1 i =
             Some (node H (zeroValue t) (leaves t @ [leaf]) i (2 * (nextIndex t div 2 ^ Suc i))) \<and>
           (\<forall>j. known (depth t) (nextIndex t + 1) i j \<longrightarrow>
              pathEntry t1 i j = Some (node H (zeroValue t) (leaves t @ [leaf]) i j))"
    by (simp_all add: insertInv_def)
  have pe: "pathEntry t' i j = pathEntry t1 i j" for i j by (simp add: t' pathEntry_def)
  have fs: "filledSubtrees t' = filledSubtrees t1" by (simp add: t')
  have rt: "root t' = h1" by (simp add: t')
  have "synced H t'"
    unfolding synced_def fields pe fs rt
    using wf' h1 below by (simp add: merkleRoot_def)
  with ins fields show ?thesis by simp
qed

lemma construct_synced:
  assumes "construct H d z = Inr t"
  shows "synced H t \<and> depth t = d \<and> zeroValue t = z \<and> leaves t = [] \<and> nextIndex t = 0"
proof -
  have wf: "wellFormed H t" using assms by (rule construct_wellFormed)
  have pos: "0 < d" using assms by (cases d) (simp_all add: construct_zero)
  then obtain d' where d': "d = Suc d'" by (cases d) auto
  from construct_eq [OF pos, of H z] assms
  have t: "t = \<lparr>depth = d, zeroValue = z, leaves = [], leafNumber = 2 ^ d,
          zeros = zeroMap H z d, filledSubtrees = zeroMap H z d,
          filledPaths = seededRows H z d d,
          root = H (zerosByLevel H z (d - 1)) (zerosByLevel H z (d - 1)), nextIndex = 0\<rparr>"
    by simp
  have rt: "root t = merkleRoot H z d []"
    by (simp add: t merkleRoot_def node_empty d')
  have fp: "pathEntry t i j = Some (node H z [] i j)" if "i < d" "known d 0 i j" for i j
    using that by (auto simp: t pathEntry_def seededRows_def seededRow_def known_def node_empty)
  show ?thesis
    unfolding synced_def using wf rt fp by (simp add: t)
qed

lemma insertAll_synced:
  assumes "synced H t" "nextIndex t + length xs \<le> 2 ^ depth t"
  shows "\<exists>t'. insertAll H t xs = Inr t' \<and> synced H t' \<and> leaves t' = leaves t @ xs \<and>
           depth t' = depth t \<and> zeroValue t' = zeroValue t \<and>
           nextIndex t' = nextIndex t + length xs"
  using assms
proof (induction xs arbitrary: t)
  case Nil
  then show ?case by simp
next
  case (Cons x xs)
  have "nextIndex t < 2 ^ depth t" using Cons.prems(2) by simp
  from insert_synced [OF Cons.prems(1) this, of x] obtain t1 where
    t1: "insert H t x = Inr t1" "synced H t1" "leaves t1 = leaves t @ [x]"
      "depth t1 = depth t" "zeroValue t1 = zeroValue t" "nextIndex t1 = nextIndex t + 1"
    by blast
  have "nextIndex t1 + length xs \<le> 2 ^ depth t1" using Cons.prems(2) t1 by simp
  from Cons.IH [OF t1(2) this] t1 show ?case by simp
qed

lemma climb_node:
  assumes "\<forall>i < m. sib i = node H z ls i (siblingIndex k i)"
  shows "climb H k (node H z ls 0 k) sib m = node H z ls m (k div 2 ^ m)"
  using assms
proof (induction m)
  case 0
  show ?case by simp
next
  case (Suc m)
  define c where "c = k div 2 ^ m"
  have ih: "climb H k (node H z ls 0 k) sib m = node H z ls m c"
    using Suc by (simp add: c_def)
  have sb: "sib m = node H z ls m (siblingIndex k m)" using Suc.prems by simp
  have half: "k div 2 ^ Suc m = c div 2" unfolding c_def by (rule div_pow_step [symmetric])
  show ?case
  proof (cases "c mod 2 = 0")
    case True
    then have "2 * (c div 2) = c" by presburger
    moreover have "siblingIndex k m = c + 1" using True by (simp add: siblingIndex_def c_def)
    ultimately show ?thesis
      unfolding half using True ih sb by (simp add: c_def [symmetric])
  next
    case False
    then have "2 * (c div 2) = c - 1" "2 * (c div 2) + 1 = c" by presburger+
    moreover have "siblingIndex k m = c - 1" using False by (simp add: siblingIndex_def c_def)
    ultimately show ?thesis
      unfolding half using False ih sb by (simp add: c_def [symmetric])
  qed
qed

lemma known_sibling:
  assumes "k < n" "n \<le> 2 ^ d" "i < d"
  shows "known d n i (siblingIndex k i)"
proof (cases i)
  case 0
  have "2 * ((if k mod 2 = 0 then k + 1 else k - 1) div 2) < n"
    using assms(1) by presburger
  with 0 show ?thesis by (simp add: known_def siblingIndex_def)
next
  case (Suc i')
  define c where "c = k div 2 ^ i"
  have "k < 2 ^ i * 2 ^ (d - i)" using assms by (simp add: power_add [symmetric])
  then have c: "c < 2 ^ (d - i)" unfolding c_def by (simp add: less_mult_imp_div_less mult.commute)
  obtain e where e: "d - i = Suc e" using assms(3) by (cases "d - i") auto
  have "(if c mod 2 = 0 then c + 1 else c - 1) < 2 * 2 ^ e"
    using c unfolding e power_Suc by presburger
  then have "siblingIndex k i < 2 ^ (d - i)"
    unfolding e power_Suc siblingIndex_def Let_def c_def .
  then show ?thesis using Suc by (simp add: known_def)
qed

lemma synced_roundtrip:
  assumes sy: "synced H t" and k: "k < nextIndex t"
  shows "\<exists>path idx. getPathUpdate t k = Inr (path, idx) \<and>
           leafExists H t k (Some (leaves t ! k)) path = Inr True"
proof -
  define path where "path = map (\<lambda>i. pathEntry t i (siblingIndex k i)) [0..<depth t]"
  have wf: "wellFormed H t" using sy by (simp add: synced_def)
  then have rows: "\<forall>i < depth t. filledPaths t i \<noteq> None"
    and len: "length (leaves t) = nextIndex t" and cap: "nextIndex t \<le> 2 ^ depth t"
    by (auto simp: wellFormed_def)
  have gp: "getPathUpdate t k = Inr (path, map (\<lambda>i. (i, siblingIndex k i)) [0..<depth t])"
    unfolding path_def by (rule getPathUpdate_eq [OF rows k])
  have entry: "pathAt path i = Some (node H (zeroValue t) (leaves t) i (siblingIndex k i))"
    if "i < depth t" for i
  proof -
    have "known (depth t) (nextIndex t) i (siblingIndex k i)"
      using k cap that by (rule known_sibling)
    then show ?thesis using sy that by (simp add: synced_def path_def pathAt_def)
  qed
  have pd: "pathDefined path (depth t)" using entry by (simp add: pathDefined_def)
  have pv: "\<forall>i < depth t. pathValue path i = node H (zeroValue t) (leaves t) i (siblingIndex k i)"
    using entry by (simp add: pathValue_def)
  have leaf: "leaves t ! k = node H (zeroValue t) (leaves t) 0 k" using k len by simp
  have "k div 2 ^ depth t = 0" using k cap by simp
  with climb_node [OF pv] have
    "climb H k (leaves t ! k) (pathValue path) (depth t) = node H (zeroValue t) (leaves t) (depth t) 0"
    unfolding leaf [symmetric] by simp
  also have "\<dots> = root t" using sy by (simp add: synced_def merkleRoot_def)
  finally have "leafExists H t k (Some (leaves t ! k)) path = Inr True"
    by (simp add: leafExists_eq [OF k pd])
  with gp show ?thesis by blast
qed

section \<open>The root under inserts, updates and an injective hash\<close>

lemma root_after_inserts:
  assumes "construct H d z = Inr t0" "length xs \<le> 2 ^ d"
  shows "\<exists>t. insertAll H t0 xs = Inr t \<and> leaves t = xs \<and> nextIndex t = length xs \<and>
           root t = merkleRoot H z d xs"
proof -
  from construct_synced [OF assms(1)]
  have t0: "synced H t0" "depth t0 = d" "zeroValue t0 = z" "leaves t0 = []" "nextIndex t0 = 0"
    by simp_all
  have "nextIndex t0 + length xs \<le> 2 ^ depth t0" using assms(2) t0 by simp
  from insertAll_synced [OF t0(1) this] obtain t where
    t: "insertAll H t0 xs = Inr t" "synced H t" "leaves t = xs" "nextIndex t = length xs"
       "depth t = d" "zeroValue t = z"
    using t0 by auto
  from t(2) have "root t = merkleRoot H (zeroValue t) (depth t) (leaves t)"
    by (simp add: synced_def)
  with t show ?thesis by simp
qed

lemma siblingIndex_other: "siblingIndex k i \<noteq> k div 2 ^ i"
proof -
  define c where "c = k div 2 ^ i"
  have "(if c mod 2 = 0 then c + 1 else c - 1) \<noteq> c" by presburger
  then show ?thesis unfolding siblingIndex_def Let_def c_def .
qed

lemma node_update_other:
  "j \<noteq> k div 2 ^ i \<Longrightarrow> node H z (ls[k := x]) i j = node H z ls i j"
proof (induction i arbitrary: j)
  case 0
  then show ?case by simp
next
  case (Suc i)
  have "k div 2 ^ i div 2 \<noteq> j" using Suc.prems by (simp only: div_pow_step)
  then have "2 * j \<noteq> k div 2 ^ i" "2 * j + 1 \<noteq> k div 2 ^ i"
    by auto
  then show ?case using Suc.IH by simp
qed

lemma injective2D: "injective2 H \<Longrightarrow> H a b = H c d \<Longrightarrow> a = c \<and> b = d"
  unfolding injective2_def by blast

lemma climb_determines:
  assumes inj: "injective2 H"
    and eq: "climb H k leaf sib m = node H z ls m (k div 2 ^ m)"
  shows "leaf = node H z ls 0 k \<and> (\<forall>i < m. sib i = node H z ls i (siblingIndex k i))"
  using eq
proof (induction m)
  case 0
  then show ?case by simp
next
  case (Suc m)
  define c where "c = k div 2 ^ m"
  have half: "k div 2 ^ Suc m = c div 2" unfolding c_def by (rule div_pow_step [symmetric])
  have unfoldN: "node H z ls (Suc m) (c div 2)
                   = H (node H z ls m (2 * (c div 2))) (node H z ls m (2 * (c div 2) + 1))"
    by simp
  have both: "climb H k leaf sib m = node H z ls m c \<and> sib m = node H z ls m (siblingIndex k m)"
  proof (cases "c mod 2 = 0")
    case True
    then have d: "2 * (c div 2) = c" by presburger
    have s: "siblingIndex k m = c + 1" using True by (simp add: siblingIndex_def c_def)
    from Suc.prems True
    have "H (climb H k leaf sib m) (sib m) = H (node H z ls m c) (node H z ls m (c + 1))"
      unfolding half unfoldN d by (simp add: c_def)
    from injective2D [OF inj this] show ?thesis unfolding s by simp
  next
    case False
    then have d: "2 * (c div 2) = c - 1" "c - 1 + 1 = c" by presburger+
    have s: "siblingIndex k m = c - 1" using False by (simp add: siblingIndex_def c_def)
    from Suc.prems False
    have "H (sib m) (climb H k leaf sib m) = H (node H z ls m (c - 1)) (node H z ls m c)"
      unfolding half unfoldN d by (simp add: c_def)
    from injective2D [OF inj this] show ?thesis unfolding s by simp
  qed
  then have "climb H k leaf sib m = node H z ls m (k div 2 ^ m)" by (simp add: c_def)
  from Suc.IH [OF this] both show ?case by (auto simp: less_Suc_eq)
qed

lemma leafExists_rejects_other_leaf:
  assumes inj: "injective2 H"
    and wf: "wellFormed H t"
    and rt: "root t = merkleRoot H (zeroValue t) (depth t) (leaves t)"
    and k: "leafIndex < nextIndex t"
    and pd: "pathDefined path (depth t)"
    and other: "leaf \<noteq> leaves t ! leafIndex"
  shows "leafExists H t leafIndex (Some leaf) path = Inr False"
proof -
  have len: "length (leaves t) = nextIndex t" and cap: "nextIndex t \<le> 2 ^ depth t"
    using wf by (auto simp: wellFormed_def)
  have top: "leafIndex div 2 ^ depth t = 0" using k cap by simp
  have "root t \<noteq> climb H leafIndex leaf (pathValue path) (depth t)"
  proof
    assume "root t = climb H leafIndex leaf (pathValue path) (depth t)"
    then have "climb H leafIndex leaf (pathValue path) (depth t)
                 = node H (zeroValue t) (leaves t) (depth t) (leafIndex div 2 ^ depth t)"
      using rt top by (simp add: merkleRoot_def)
    from climb_determines [OF inj this] have "leaf = leaves t ! leafIndex"
      using k len by simp
    with other show False by simp
  qed
  then show ?thesis by (simp add: leafExists_eq [OF k pd])
qed

lemma update_keeps_merkle_root:
  assumes inj: "injective2 H"
    and wf: "wellFormed H t"
    and rt: "root t = merkleRoot H (zeroValue t) (depth t) (leaves t)"
    and up: "update H t leafIndex leaf path = Inr t'"
  shows "root t' = merkleRoot H (zeroValue t') (depth t') (leaves t')"
proof -
  define d where "d = depth t"
  define z where "z = zeroValue t"
  define ls where "ls = leaves t"
  have len: "length ls = nextIndex t" and cap: "nextIndex t \<le> 2 ^ d"
    using wf by (auto simp: wellFormed_def ls_def d_def)
  from update_success [OF up] obtain t1 c h where
    ok: "leafExists H t leafIndex (leafAt (leaves t) leafIndex) path = Inr True"
    and t': "t' = t1\<lparr>root := h, leaves := (leaves t1)[leafIndex := leaf]\<rparr>"
    and inv: "updateInv H t leafIndex leaf path (depth t) (t1, c, h)" by auto
  from inv have h: "h = climb H leafIndex leaf (pathValue path) d"
    and st: "sameStatic t t1" by (simp_all add: updateInv_def d_def)
  have k: "leafIndex < length ls" using update_index_in_range [OF up] by (simp add: ls_def)
  then have kn: "leafIndex < nextIndex t" using len by simp
  have cur: "leafAt (leaves t) leafIndex = Some (ls ! leafIndex)"
    using k by (simp add: leafAt_def ls_def)
  have pd: "pathDefined path (depth t)" using leafExists_success [OF ok] by simp
  have top: "leafIndex div 2 ^ d = 0" using kn cap by simp
  from ok have "root t = climb H leafIndex (ls ! leafIndex) (pathValue path) d"
    unfolding cur by (simp add: leafExists_eq [OF kn pd] d_def)
  then have "climb H leafIndex (ls ! leafIndex) (pathValue path) d
               = node H z ls d (leafIndex div 2 ^ d)"
    using rt top by (simp add: merkleRoot_def d_def z_def ls_def)
  from climb_determines [OF inj this]
  have sibs: "\<forall>i < d. pathValue path i = node H z ls i (siblingIndex leafIndex i)" by simp
  have sibs': "\<forall>i < d. pathValue path i = node H z (ls[leafIndex := leaf]) i (siblingIndex leafIndex i)"
    using sibs node_update_other [OF siblingIndex_other, of H z ls leafIndex leaf] by simp
  have "node H z (ls[leafIndex := leaf]) 0 leafIndex = leaf" using k by simp
  with climb_node [OF sibs'] top
  have "climb H leafIndex leaf (pathValue path) d = node H z (ls[leafIndex := leaf]) d 0"
    by simp
  then show ?thesis
    using st h by (simp add: t' merkleRoot_def sameStatic_def d_def z_def ls_def)
qed

section \<open>Concrete trees\<close>

lemmas model_defs = construct_def ctor_level_def ctor_seed_def ctor_seed_level_def hashLeftRight_def
  setPath_def getPath_def insert_def insert_level_def storePath_def hashIn_def leafExists_def
  leafExists_level_def update_def update_level_def getPathUpdate_def getPathUpdate_level_def
  leafAt_def pathAt_def Let_def

lemma construct_tree1: "construct Hashed 1 (Val 0) = Inr tree1"
  using construct_eq [of 1 Hashed "Val 0"] by (simp add: tree1_def)

lemma construct_tree2: "construct Hashed 2 (Val 0) = Inr tree2"
  using construct_eq [of 2 Hashed "Val 0"] by (simp add: tree2_def)

lemma reachable_invokeAll: "reachable H t \<Longrightarrow> reachable H (invokeAll H t cs)"
  by (induction cs arbitrary: t) (auto intro: reachable.invoked)

lemma reachable_tree1: "reachable Hashed tree1"
  using construct_tree1 by (rule reachable.constructed)

lemma reachable_tree2: "reachable Hashed tree2"
  using construct_tree2 by (rule reachable.constructed)

lemma reachable_full1: "reachable Hashed full1"
  unfolding full1_def using reachable_tree1 by (rule reachable_invokeAll)

lemma stale_fields:
  "depth stale = 2" "zeroValue stale = Val 0" "nextIndex stale = 3"
  "leaves stale = [Val 1, Val 9, Val 3]"
  "root stale = Hashed (Hashed (Val 1) (Val 2)) (Hashed (Val 3) (Val 0))"
  by (simp_all add: stale_def staleCalls_def tree2_def model_defs eval_nat_numeral)

lemma stale_outcomes:
  "invokeOutcomes Hashed tree2 staleCalls =
     [Returned, Returned,
      ReturnedPath [Some (Val 1), Some (Hashed (Val 0) (Val 0))] [(0, 0), (1, 1)],
      Returned, Returned,
      ReturnedPath [Some (Val 1), Some (Hashed (Val 3) (Val 0))] [(0, 0), (1, 1)]]"
  by (simp add: staleCalls_def tree2_def model_defs eval_nat_numeral)

lemma stale_merkleRoot:
  "merkleRoot Hashed (zeroValue stale) (depth stale) (leaves stale)
     = Hashed (Hashed (Val 1) (Val 9)) (Hashed (Val 3) (Val 0))"
  by (simp add: stale_fields merkleRoot_def eval_nat_numeral)

lemma stale_recorded:
  "recordedNode Hashed stale (depth stale) 0
     = Hashed (Hashed (Val 1) (Val 9)) (Hashed (Val 3) (Val 0))"
  by (simp add: stale_fields(1) eval_nat_numeral)
     (simp add: pathEntry_def stale_def staleCalls_def tree2_def model_defs eval_nat_numeral)

lemma Hashed_injective2: "injective2 Hashed"
  by (simp add: injective2_def)

lemma stale_leafExists:
  "leafExists Hashed stale 1 (Some (Val 2)) [Some (Val 1), Some (Hashed (Val 3) (Val 0))] = Inr True"
  "leafExists Hashed stale 1 (Some (Val 9)) [Some (Val 1), Some (Hashed (Val 3) (Val 0))] = Inr False"
  by (simp_all add: stale_def staleCalls_def tree2_def model_defs eval_nat_numeral)

lemma reachable_stale: "reachable Hashed stale"
  unfolding stale_def using reachable_tree2 by (rule reachable_invokeAll)

lemma stale_path:
  "getPathUpdate stale 1
     = Inr ([Some (Val 1), Some (Hashed (Val 3) (Val 0))], [(0, 0), (1, 1)])"
  by (simp add: stale_def staleCalls_def tree2_def model_defs eval_nat_numeral)

section \<open>The claims\<close>

text \<open>
  Claim C1 (the code breaks it). The root is the Merkle root of the padded
  leaves after the constructor and after any run of inserts (lemma
  \<open>root_after_inserts\<close>), and an update keeps it so when the hash is injective
  (lemma \<open>update_keeps_merkle_root\<close>). An insert after an update breaks it:
  \<^verbatim>\<open>update\<close> rewrites \<open>filledPaths\<close> and the root but leaves \<open>filledSubtrees\<close> as
  the last insert wrote it, and the next insert into a right-hand position
  rebuilds the root from that stale left sibling. At depth \<open>2\<close> with zero value
  \<open>Val 0\<close>: insert \<open>Val 1\<close>, insert \<open>Val 2\<close>, update index \<open>1\<close> to \<open>Val 9\<close> with
  the path \<^verbatim>\<open>getPathUpdate(1)\<close> returns, insert \<open>Val 3\<close>. Every call returns and
  the leaves are \<open>[Val 1, Val 9, Val 3]\<close>, yet the root still hashes \<open>Val 2\<close> at
  index \<open>1\<close>: it is neither the Merkle root of the padded leaves nor the digest
  recombined from the recorded leaf-level entries of \<open>filledPaths\<close>.
\<close>
theorem C1_root_stale_after_update_then_insert:
  "reachable Hashed stale \<and>
   invokeOutcomes Hashed tree2 staleCalls =
     [Returned, Returned,
      ReturnedPath [Some (Val 1), Some (Hashed (Val 0) (Val 0))] [(0, 0), (1, 1)],
      Returned, Returned,
      ReturnedPath [Some (Val 1), Some (Hashed (Val 3) (Val 0))] [(0, 0), (1, 1)]] \<and>
   leaves stale = [Val 1, Val 9, Val 3] \<and>
   root stale = Hashed (Hashed (Val 1) (Val 2)) (Hashed (Val 3) (Val 0)) \<and>
   merkleRoot Hashed (zeroValue stale) (depth stale) (leaves stale)
     = Hashed (Hashed (Val 1) (Val 9)) (Hashed (Val 3) (Val 0)) \<and>
   recordedNode Hashed stale (depth stale) 0
     = Hashed (Hashed (Val 1) (Val 9)) (Hashed (Val 3) (Val 0)) \<and>
   root stale \<noteq> merkleRoot Hashed (zeroValue stale) (depth stale) (leaves stale) \<and>
   root stale \<noteq> recordedNode Hashed stale (depth stale) 0"
proof -
  have ne: "root stale \<noteq> merkleRoot Hashed (zeroValue stale) (depth stale) (leaves stale)"
    unfolding stale_merkleRoot by (simp add: stale_fields(5))
  have ne': "root stale \<noteq> recordedNode Hashed stale (depth stale) 0"
    unfolding stale_recorded by (simp add: stale_fields(5))
  show ?thesis
    using reachable_stale stale_outcomes stale_fields(4,5) stale_merkleRoot stale_recorded ne ne'
    by (intro conjI)
qed

text \<open>
  Claim C2. For every tree the constructor returns, of depth \<open>d\<close>, every list
  of at most \<open>2 ^ d\<close> leaves inserted in order (all the inserts return) and every
  inserted index \<open>k\<close>: \<^verbatim>\<open>getPathUpdate(k)\<close> returns a path, and
  \<^verbatim>\<open>leafExists(k, leaves[k], path)\<close> returns true.
\<close>
theorem C2_insert_roundtrip:
  assumes "construct H d z = Inr t0" "length xs \<le> 2 ^ d" "k < length xs"
  shows "\<exists>t path idx. insertAll H t0 xs = Inr t \<and> leaves t = xs \<and>
           nextIndex t = length xs \<and>
           getPathUpdate t k = Inr (path, idx) \<and>
           leafExists H t k (Some (leaves t ! k)) path = Inr True"
proof -
  from construct_synced [OF assms(1)]
  have t0: "synced H t0" "depth t0 = d" "leaves t0 = []" "nextIndex t0 = 0" by simp_all
  have "nextIndex t0 + length xs \<le> 2 ^ depth t0" using assms(2) t0 by simp
  from insertAll_synced [OF t0(1) this] obtain t where
    t: "insertAll H t0 xs = Inr t" "synced H t" "leaves t = xs" "nextIndex t = length xs"
    using t0 by auto
  have "k < nextIndex t" using assms(3) t(4) by simp
  from synced_roundtrip [OF t(2) this] obtain path idx where
    "getPathUpdate t k = Inr (path, idx)"
    "leafExists H t k (Some (leaves t ! k)) path = Inr True" by blast
  with t show ?thesis by blast
qed

theorem C2_insert_roundtrip_witness:
  "construct Hashed 2 (Val 0) = Inr tree2 \<and>
   length [Val 1, Val 2, Val 3] \<le> (2::nat) ^ 2 \<and> (1::nat) < length [Val 1, Val 2, Val 3] \<and>
   (\<exists>t path idx. insertAll Hashed tree2 [Val 1, Val 2, Val 3] = Inr t \<and>
      leaves t = [Val 1, Val 2, Val 3] \<and> nextIndex t = length [Val 1, Val 2, Val 3] \<and>
      getPathUpdate t 1 = Inr (path, idx) \<and>
      leafExists Hashed t 1 (Some (leaves t ! 1)) path = Inr True)"
proof -
  have a: "length [Val 1, Val 2, Val 3] \<le> (2::nat) ^ 2" by simp
  have b: "(1::nat) < length [Val 1, Val 2, Val 3]" by simp
  show ?thesis
    using construct_tree2 a b C2_insert_roundtrip [OF construct_tree2 a b]
    by (intro conjI)
qed

text \<open>
  Claim C3. On a reachable tree, \<^verbatim>\<open>insert\<close> throws exactly when
  \<open>nextIndex\<close> is the capacity \<open>2 ^ depth\<close>; the error is \<^verbatim>\<open>CapacityExceeded\<close>
  and the throw leaves the tree as it was, so that \<open>nextIndex\<close>, \<open>root\<close>,
  \<open>leaves\<close>, \<open>filledPaths\<close> and \<open>filledSubtrees\<close> are unchanged. Below the
  capacity the call returns.
\<close>
theorem C3_insert_capacity:
  assumes "reachable H t"
  shows "leafNumber t = 2 ^ depth t \<and>
         (insert H t leaf = Inl (CapacityExceeded, t) \<longleftrightarrow> nextIndex t = 2 ^ depth t) \<and>
         ((\<exists>t'. insert H t leaf = Inr t') \<longleftrightarrow> nextIndex t \<noteq> 2 ^ depth t) \<and>
         (\<forall>e t'. insert H t leaf = Inl (e, t') \<longrightarrow>
            e = CapacityExceeded \<and> t' = t \<and> nextIndex t' = nextIndex t \<and> root t' = root t \<and>
            leaves t' = leaves t \<and> filledPaths t' = filledPaths t \<and>
            filledSubtrees t' = filledSubtrees t)"
proof -
  have wf: "wellFormed H t" using assms by (rule reachable_wellFormed)
  then have cap: "leafNumber t = 2 ^ depth t" "nextIndex t \<le> leafNumber t"
    by (simp_all add: wellFormed_def)
  show ?thesis
  proof (cases "nextIndex t = 2 ^ depth t")
    case True
    then have "insert H t leaf = Inl (CapacityExceeded, t)"
      using cap by (simp add: insert_full)
    then show ?thesis using True cap by simp
  next
    case False
    then have "nextIndex t < leafNumber t" using cap by simp
    from insert_wellFormed [OF wf this, of leaf] obtain t' where "insert H t leaf = Inr t'"
      by blast
    then show ?thesis using False cap by simp
  qed
qed

theorem C3_insert_capacity_witness:
  "reachable Hashed full1 \<and> nextIndex full1 = 2 ^ depth full1 \<and>
   insert Hashed full1 (Val 3) = Inl (CapacityExceeded, full1) \<and>
   reachable Hashed tree1 \<and> nextIndex tree1 \<noteq> 2 ^ depth tree1 \<and>
   (\<exists>t'. insert Hashed tree1 (Val 3) = Inr t')"
proof -
  have n: "nextIndex full1 = 2" "depth full1 = 1" "nextIndex tree1 = 0" "depth tree1 = 1"
    by (simp_all add: full1_def tree1_def model_defs)
  show ?thesis
    using C3_insert_capacity [OF reachable_full1, of "Val 3"]
      C3_insert_capacity [OF reachable_tree1, of "Val 3"]
    by (simp add: reachable_full1 reachable_tree1 n)
qed

text \<open>
  Claim C4, as the code has it. On a reachable tree: for
  \<open>leafIndex \<ge> nextIndex\<close>, \<^verbatim>\<open>update\<close> throws \<^verbatim>\<open>LeafNotInserted\<close>. For
  \<open>leafIndex < nextIndex\<close> it returns if and only if
  \<^verbatim>\<open>leafExists(leafIndex, leaves[leafIndex], path)\<close> returns true, and then
  \<open>leaves[leafIndex]\<close> is the new leaf. Every throw leaves the whole tree
  unchanged. When the path supplies \<open>depth\<close> digests the check returns a
  boolean and the only throw is \<^verbatim>\<open>ProofMismatch\<close>, raised exactly when the check
  returns false; when one of the first \<open>depth\<close> entries of the path is missing,
  the throw is the \<^verbatim>\<open>TypeError\<close> of the hash's conversion, raised inside the
  check before any comparison with the root.
\<close>
theorem C4_update_gate:
  assumes "reachable H t"
  shows "(leafIndex < nextIndex t \<longrightarrow> \<not> pathDefined path (depth t) \<longrightarrow>
            update H t leafIndex leaf path = Inl (TypeError, t)) \<and>
         (nextIndex t \<le> leafIndex \<longrightarrow>
            update H t leafIndex leaf path = Inl (LeafNotInserted, t)) \<and>
         (leafIndex < nextIndex t \<longrightarrow>
            ((\<exists>t'. update H t leafIndex leaf path = Inr t') \<longleftrightarrow>
               leafExists H t leafIndex (Some (leaves t ! leafIndex)) path = Inr True) \<and>
            (\<forall>t'. update H t leafIndex leaf path = Inr t' \<longrightarrow>
               leaves t' = (leaves t)[leafIndex := leaf] \<and> leaves t' ! leafIndex = leaf) \<and>
            (pathDefined path (depth t) \<longrightarrow>
               (\<exists>b. leafExists H t leafIndex (Some (leaves t ! leafIndex)) path = Inr b) \<and>
               (update H t leafIndex leaf path = Inl (ProofMismatch, t) \<longleftrightarrow>
                  leafExists H t leafIndex (Some (leaves t ! leafIndex)) path = Inr False))) \<and>
         (\<forall>e t'. update H t leafIndex leaf path = Inl (e, t') \<longrightarrow>
            t' = t \<and> (leafIndex < nextIndex t \<and> pathDefined path (depth t) \<longrightarrow> e = ProofMismatch))"
proof -
  have wf: "wellFormed H t" using assms by (rule reachable_wellFormed)
  then have rows: "\<forall>i < depth t. filledPaths t i \<noteq> None"
    and len: "length (leaves t) = nextIndex t"
    by (simp_all add: wellFormed_def)
  let ?chk = "leafExists H t leafIndex (leafAt (leaves t) leafIndex) path"
  have atomic: "t' = t" if "update H t leafIndex leaf path = Inl (e, t')" for e t'
    using update_atomic [OF wf that] .
  have short: "leafIndex < nextIndex t \<longrightarrow> \<not> pathDefined path (depth t) \<longrightarrow>
                 update H t leafIndex leaf path = Inl (TypeError, t)"
  proof (intro impI)
    assume lt: "leafIndex < nextIndex t" and npd: "\<not> pathDefined path (depth t)"
    show "update H t leafIndex leaf path = Inl (TypeError, t)"
    proof (cases ?chk)
      case (Inl e)
      from leafExists_errors [OF Inl] lt have "e = TypeError" by simp
      with update_check_throws [OF Inl, of leaf] show ?thesis by simp
    next
      case (Inr b)
      from leafExists_success [OF Inr] npd show ?thesis by simp
    qed
  qed
  have main: "(nextIndex t \<le> leafIndex \<longrightarrow>
            update H t leafIndex leaf path = Inl (LeafNotInserted, t)) \<and>
         (leafIndex < nextIndex t \<longrightarrow>
            ((\<exists>t'. update H t leafIndex leaf path = Inr t') \<longleftrightarrow>
               leafExists H t leafIndex (Some (leaves t ! leafIndex)) path = Inr True) \<and>
            (\<forall>t'. update H t leafIndex leaf path = Inr t' \<longrightarrow>
               leaves t' = (leaves t)[leafIndex := leaf] \<and> leaves t' ! leafIndex = leaf) \<and>
            (pathDefined path (depth t) \<longrightarrow>
               (\<exists>b. leafExists H t leafIndex (Some (leaves t ! leafIndex)) path = Inr b) \<and>
               (update H t leafIndex leaf path = Inl (ProofMismatch, t) \<longleftrightarrow>
                  leafExists H t leafIndex (Some (leaves t ! leafIndex)) path = Inr False))) \<and>
         (\<forall>e t'. update H t leafIndex leaf path = Inl (e, t') \<longrightarrow>
            t' = t \<and> (leafIndex < nextIndex t \<and> pathDefined path (depth t) \<longrightarrow> e = ProofMismatch))"
  proof (cases "nextIndex t \<le> leafIndex")
    case True
    then show ?thesis by (simp add: update_not_inserted)
  next
    case False
    then have lt: "leafIndex < nextIndex t" by simp
    then have cur: "leafAt (leaves t) leafIndex = Some (leaves t ! leafIndex)"
      using len by (simp add: leafAt_def)
    have iff: "(\<exists>t'. update H t leafIndex leaf path = Inr t') \<longleftrightarrow> ?chk = Inr True"
    proof
      assume "\<exists>t'. update H t leafIndex leaf path = Inr t'"
      then obtain t' where "update H t leafIndex leaf path = Inr t'" ..
      from update_success [OF this] show "?chk = Inr True" by (rule conjunct1)
    next
      assume "?chk = Inr True"
      from update_accepts [OF rows this, of leaf] show "\<exists>t'. update H t leafIndex leaf path = Inr t'"
        by auto
    qed
    have post: "leaves t' = (leaves t)[leafIndex := leaf] \<and> leaves t' ! leafIndex = leaf"
      if up: "update H t leafIndex leaf path = Inr t'" for t'
    proof -
      from update_success [OF up] obtain t1 c h where
        "t' = t1\<lparr>root := h, leaves := (leaves t1)[leafIndex := leaf]\<rparr>"
        "updateInv H t leafIndex leaf path (depth t) (t1, c, h)" by auto
      then have "leaves t' = (leaves t)[leafIndex := leaf]"
        by (simp add: updateInv_def sameStatic_def)
      then show ?thesis using lt len by simp
    qed
    have defined: "(\<exists>b. ?chk = Inr b) \<and>
        (update H t leafIndex leaf path = Inl (ProofMismatch, t) \<longleftrightarrow> ?chk = Inr False) \<and>
        (\<forall>e t'. update H t leafIndex leaf path = Inl (e, t') \<longrightarrow> e = ProofMismatch)"
      if pd: "pathDefined path (depth t)"
    proof -
      from leafExists_eq [OF lt pd, of H "leaves t ! leafIndex"] cur
      obtain b where b: "?chk = Inr b" by simp
      have ex: "\<exists>b. ?chk = Inr b" using b by (rule exI)
      show ?thesis
      proof (cases b)
        case True
        with b iff ex show ?thesis by auto
      next
        case False
        with b have "update H t leafIndex leaf path = Inl (ProofMismatch, t)"
          by (simp add: update_mismatch)
        with b False ex show ?thesis by simp
      qed
    qed
    show ?thesis
      using lt iff post defined atomic unfolding cur by auto
  qed
  show ?thesis using short main by (rule conjI)
qed

theorem C4_update_gate_witness:
  "reachable Hashed full1 \<and> (0::nat) < nextIndex full1 \<and> nextIndex full1 \<le> 2 \<and>
   pathDefined [Some (Val 2)] (depth full1) \<and> pathDefined [Some (Val 5)] (depth full1) \<and>
   leafExists Hashed full1 0 (Some (leaves full1 ! 0)) [Some (Val 2)] = Inr True \<and>
   (\<exists>t'. update Hashed full1 0 (Val 9) [Some (Val 2)] = Inr t') \<and>
   leafExists Hashed full1 0 (Some (leaves full1 ! 0)) [Some (Val 5)] = Inr False \<and>
   update Hashed full1 0 (Val 9) [Some (Val 5)] = Inl (ProofMismatch, full1) \<and>
   update Hashed full1 2 (Val 9) [Some (Val 2)] = Inl (LeafNotInserted, full1) \<and>
   \<not> pathDefined [] (depth full1) \<and>
   update Hashed full1 0 (Val 9) [] = Inl (TypeError, full1)"
proof -
  have n: "nextIndex full1 = 2" "depth full1 = 1"
    by (simp_all add: full1_def tree1_def model_defs)
  have lt: "0 < nextIndex full1" and ge: "nextIndex full1 \<le> 2" by (simp_all add: n)
  have pd: "pathDefined [Some (Val 2)] (depth full1)" "pathDefined [Some (Val 5)] (depth full1)"
    by (simp_all add: n pathDefined_def pathAt_def)
  have chk: "leafExists Hashed full1 0 (Some (leaves full1 ! 0)) [Some (Val 2)] = Inr True"
    "leafExists Hashed full1 0 (Some (leaves full1 ! 0)) [Some (Val 5)] = Inr False"
    by (simp_all add: full1_def tree1_def model_defs)
  have npd: "\<not> pathDefined [] (depth full1)"
    by (simp add: n pathDefined_def pathAt_def)
  note gate = C4_update_gate [OF reachable_full1, THEN conjunct2]
  have te: "update Hashed full1 0 (Val 9) [] = Inl (TypeError, full1)"
    using C4_update_gate [OF reachable_full1, of 0 "[]" "Val 9", THEN conjunct1, THEN mp, OF lt,
                          THEN mp, OF npd] .
  have ok: "\<exists>t'. update Hashed full1 0 (Val 9) [Some (Val 2)] = Inr t'"
    using gate [of 0 "Val 9" "[Some (Val 2)]", THEN conjunct2, THEN conjunct1, THEN mp, OF lt,
                THEN conjunct1] chk(1)
    by (rule iffD2)
  have mm: "update Hashed full1 0 (Val 9) [Some (Val 5)] = Inl (ProofMismatch, full1)"
    using gate [of 0 "Val 9" "[Some (Val 5)]", THEN conjunct2, THEN conjunct1, THEN mp, OF lt,
                THEN conjunct2, THEN conjunct2, THEN mp, OF pd(2), THEN conjunct2] chk(2)
    by (rule iffD2)
  have ni: "update Hashed full1 2 (Val 9) [Some (Val 2)] = Inl (LeafNotInserted, full1)"
    using gate [of 2 "Val 9" "[Some (Val 2)]", THEN conjunct1, THEN mp] ge by simp
  show ?thesis
    using reachable_full1 lt ge pd chk ok mm ni npd te by (intro conjI)
qed

text \<open>
  Claim C4 as worded fails on the code: it lets a failing \<^verbatim>\<open>update\<close> of an
  inserted index throw only \<^verbatim>\<open>ProofMismatch\<close>. On the full tree of depth \<open>1\<close>
  with leaves \<open>[Val 1, Val 2]\<close>, \<^verbatim>\<open>update(0, Val 9, [])\<close> reads \<^verbatim>\<open>path[0]\<close> as
  \<^verbatim>\<open>undefined\<close> inside \<^verbatim>\<open>leafExists\<close>, and the hash's conversion throws a
  \<^verbatim>\<open>TypeError\<close> before the root is compared; the tree is unchanged.
\<close>
theorem C4_short_path_counterexample:
  "reachable Hashed full1 \<and> (0::nat) < nextIndex full1 \<and>
   leafExists Hashed full1 0 (Some (leaves full1 ! 0)) [] = Inl TypeError \<and>
   update Hashed full1 0 (Val 9) [] = Inl (TypeError, full1) \<and>
   update Hashed full1 0 (Val 9) [] \<noteq> Inl (ProofMismatch, full1)"
proof -
  have lt: "(0::nat) < nextIndex full1"
    by (simp add: full1_def tree1_def model_defs)
  have chk: "leafExists Hashed full1 0 (Some (leaves full1 ! 0)) [] = Inl TypeError"
    by (simp add: full1_def tree1_def model_defs)
  have chk': "leafExists Hashed full1 0 (leafAt (leaves full1) 0) [] = Inl TypeError"
    by (simp add: full1_def tree1_def model_defs)
  have up: "update Hashed full1 0 (Val 9) [] = Inl (TypeError, full1)"
    using chk' by (rule update_check_throws)
  have ne: "update Hashed full1 0 (Val 9) [] \<noteq> Inl (ProofMismatch, full1)"
    unfolding up by simp
  show ?thesis
    using reachable_full1 lt chk up ne by (intro conjI)
qed

text \<open>
  Claim C5. For every depth \<open>d \<ge> 1\<close> and every zero value, the constructor returns
  a tree with no leaves whose root is the hash of two copies of
  \<open>zerosByLevel (d - 1)\<close>, where \<open>zerosByLevel 0\<close> is the zero value and
  \<open>zerosByLevel (i + 1)\<close> hashes two copies of \<open>zerosByLevel i\<close>; the stored
  \<^verbatim>\<open>zeros\<close> are these digests.
\<close>
theorem C5_empty_root:
  assumes "1 \<le> d"
  shows "\<exists>t. construct H d z = Inr t \<and> nextIndex t = 0 \<and> leaves t = [] \<and>
           (\<forall>i < d. zeros t i = Some (zerosByLevel H z i)) \<and>
           root t = H (zerosByLevel H z (d - 1)) (zerosByLevel H z (d - 1))"
proof -
  from assms have "0 < d" by simp
  from construct_eq [OF this, of H z] show ?thesis by (simp add: zeroMap_def)
qed

theorem C5_empty_root_witness:
  "(1::nat) \<le> 2 \<and>
   (\<exists>t. construct Hashed 2 (Val 0) = Inr t \<and> nextIndex t = 0 \<and> leaves t = [] \<and>
      (\<forall>i < 2. zeros t i = Some (zerosByLevel Hashed (Val 0) i)) \<and>
      root t = Hashed (Hashed (Val 0) (Val 0)) (Hashed (Val 0) (Val 0)))"
  using C5_empty_root [of 2 Hashed "Val 0"] by (simp add: eval_nat_numeral)

text \<open>
  Claim C6 (the code breaks it). On a tree whose root is the Merkle root of
  its leaves, an injective hash makes \<^verbatim>\<open>leafExists\<close> return false, without
  throwing, for every leaf other than the stored one and every path of
  \<open>depth\<close> digests (lemma \<open>leafExists_rejects_other_leaf\<close>). In the reachable
  tree \<open>stale\<close>, built with the injective hash \<open>Hashed\<close> by an insert after an
  update, the root no longer commits to \<open>leaves[1] = Val 9\<close>: with the path
  \<^verbatim>\<open>getPathUpdate(1)\<close> returns, \<^verbatim>\<open>leafExists\<close> returns true for the replaced leaf
  \<open>Val 2\<close>, which is not \<open>leaves[1]\<close>, and false for \<open>Val 9\<close> itself, so that
  \<^verbatim>\<open>update\<close> of index \<open>1\<close> with that path throws \<^verbatim>\<open>ProofMismatch\<close>.
\<close>
theorem C6_replaced_leaf_still_verifies:
  "reachable Hashed stale \<and> 1 < nextIndex stale \<and>
   leaves stale ! 1 = Val 9 \<and> Val 2 \<noteq> leaves stale ! 1 \<and>
   getPathUpdate stale 1
     = Inr ([Some (Val 1), Some (Hashed (Val 3) (Val 0))], [(0, 0), (1, 1)]) \<and>
   leafExists Hashed stale 1 (Some (Val 2)) [Some (Val 1), Some (Hashed (Val 3) (Val 0))]
     = Inr True \<and>
   leafExists Hashed stale 1 (Some (Val 9)) [Some (Val 1), Some (Hashed (Val 3) (Val 0))]
     = Inr False \<and>
   update Hashed stale 1 (Val 7) [Some (Val 1), Some (Hashed (Val 3) (Val 0))]
     = Inl (ProofMismatch, stale)"
proof -
  have cur: "leafAt (leaves stale) 1 = Some (Val 9)"
    by (simp add: leafAt_def stale_fields)
  have mm: "update Hashed stale 1 (Val 7) [Some (Val 1), Some (Hashed (Val 3) (Val 0))]
              = Inl (ProofMismatch, stale)"
    by (rule update_mismatch) (simp only: cur stale_leafExists)
  have facts: "1 < nextIndex stale" "leaves stale ! 1 = Val 9" "Val 2 \<noteq> leaves stale ! 1"
    by (simp_all add: stale_fields)
  show ?thesis
    using reachable_stale facts stale_path stale_leafExists mm by (intro conjI)
qed

text \<open>
  Claim C7. After construction with depth \<open>d\<close>, for every level \<open>i\<close> with
  \<open>1 \<le> i < d\<close> and every index \<open>j < 2 ^ (d - i)\<close>, the entry
  \<^verbatim>\<open>filledPaths[i][j]\<close> is \<open>zerosByLevel i\<close>, the digest of the empty subtree of
  that level, which is the hash of two copies of \<open>zerosByLevel (i - 1)\<close>.
\<close>
theorem C7_seeded_paths:
  assumes "construct H d z = Inr t" "1 \<le> i" "i < d" "j < 2 ^ (d - i)"
  shows "getPath (filledPaths t) i j = Inr (Some (zerosByLevel H z i)) \<and>
         zerosByLevel H z i = H (zerosByLevel H z (i - 1)) (zerosByLevel H z (i - 1))"
proof -
  from assms have "0 < d" by simp
  from construct_eq [OF this, of H z] assms(1)
  have "filledPaths t = seededRows H z d d" by simp
  moreover obtain i' where "i = Suc i'" using assms(2) by (cases i) auto
  ultimately show ?thesis using assms(2-4)
    by (simp add: getPath_def seededRows_def seededRow_def)
qed

theorem C7_seeded_paths_witness:
  "construct Hashed 2 (Val 0) = Inr tree2 \<and> (1::nat) \<le> 1 \<and> (1::nat) < 2 \<and> (1::nat) < 2 ^ (2 - 1) \<and>
   getPath (filledPaths tree2) 1 1 = Inr (Some (Hashed (Val 0) (Val 0)))"
  using C7_seeded_paths [of Hashed 2 "Val 0" tree2 1 1] construct_tree2
  by (simp add: eval_nat_numeral)

text \<open>
  Claim C8. On a reachable tree, \<^verbatim>\<open>getPathUpdate(leafIndex)\<close> throws
  \<^verbatim>\<open>LeafNotInserted\<close> exactly when \<open>leafIndex \<ge> nextIndex\<close>. Otherwise it returns
  a path of length \<open>depth\<close> whose \<open>i\<close>-th entry is
  \<^verbatim>\<open>filledPaths[i][s]\<close> for \<open>s = siblingIndex leafIndex i\<close> (the current index,
  halved \<open>i\<close> times, plus one if even and minus one if odd), together with the
  pairs \<open>(i, s)\<close> in the order of the levels.
\<close>
theorem C8_getPathUpdate:
  assumes "reachable H t"
  shows "(getPathUpdate t leafIndex = Inl LeafNotInserted \<longleftrightarrow> nextIndex t \<le> leafIndex) \<and>
         (leafIndex < nextIndex t \<longrightarrow>
            (\<exists>path idx. getPathUpdate t leafIndex = Inr (path, idx) \<and>
               length path = depth t \<and>
               idx = map (\<lambda>i. (i, siblingIndex leafIndex i)) [0..<depth t] \<and>
               (\<forall>i < depth t.
                  getPath (filledPaths t) i (siblingIndex leafIndex i) = Inr (path ! i))))"
proof -
  have rows: "\<forall>i < depth t. filledPaths t i \<noteq> None"
    using reachable_wellFormed [OF assms] by (simp add: wellFormed_def)
  show ?thesis
  proof (cases "nextIndex t \<le> leafIndex")
    case True
    then show ?thesis by (simp add: getPathUpdate_not_inserted)
  next
    case False
    then have lt: "leafIndex < nextIndex t" by simp
    show ?thesis
      using rows lt by (simp add: getPathUpdate_eq [OF rows lt] getPath_pathEntry)
  qed
qed

theorem C8_getPathUpdate_witness:
  "reachable Hashed full1 \<and> (0::nat) < nextIndex full1 \<and>
   getPathUpdate full1 2 = Inl LeafNotInserted \<and>
   (\<exists>path idx. getPathUpdate full1 0 = Inr (path, idx) \<and> length path = depth full1 \<and>
      idx = map (\<lambda>i. (i, siblingIndex 0 i)) [0..<depth full1] \<and>
      (\<forall>i < depth full1. getPath (filledPaths full1) i (siblingIndex 0 i) = Inr (path ! i)))"
proof -
  have n: "nextIndex full1 = 2"
    by (simp add: full1_def tree1_def model_defs)
  show ?thesis
    using C8_getPathUpdate [OF reachable_full1, of 2] C8_getPathUpdate [OF reachable_full1, of 0]
    by (simp add: reachable_full1 n)
qed

text \<open>
  Claim C9. \<^verbatim>\<open>leafExists\<close> and \<^verbatim>\<open>getPathUpdate\<close> are read-only: after any
  sequence of such calls, with any arguments and whether they return or throw,
  the tree is the tree before the calls, field by field, and a call made
  after them gives the outcome it gives before them.
\<close>
theorem C9_reads_leave_tree:
  assumes "\<forall>c \<in> set cs. isRead c"
  shows "invokeAll H t cs = t \<and>
         root (invokeAll H t cs) = root t \<and>
         filledPaths (invokeAll H t cs) = filledPaths t \<and>
         filledSubtrees (invokeAll H t cs) = filledSubtrees t \<and>
         leaves (invokeAll H t cs) = leaves t \<and>
         nextIndex (invokeAll H t cs) = nextIndex t \<and>
         invoke H (invokeAll H t cs) c' = invoke H t c'"
proof -
  have one: "isRead c \<Longrightarrow> snd (invoke H u c) = u" for c and u :: "'a MerkleTree"
    by (cases c) (auto split: sum.splits prod.splits)
  have "invokeAll H t cs = t" using assms
    by (induction cs arbitrary: t) (simp_all add: one)
  then show ?thesis by simp
qed

theorem C9_reads_leave_tree_witness:
  "list_all isRead [GetPathUpdate 0, LeafExists 0 (Some (Val 7)) [Some (Val 2)], GetPathUpdate 5,
                    LeafExists 1 (Some (Val 2)) []] \<and>
   invokeAll Hashed full1
     [GetPathUpdate 0, LeafExists 0 (Some (Val 7)) [Some (Val 2)], GetPathUpdate 5,
      LeafExists 1 (Some (Val 2)) []] = full1"
  using C9_reads_leave_tree [of "[GetPathUpdate 0, LeafExists 0 (Some (Val 7)) [Some (Val 2)],
      GetPathUpdate 5, LeafExists 1 (Some (Val 2)) []]" Hashed full1]
  by simp

text \<open>
  Claim C10. A call of \<^verbatim>\<open>update\<close> that returns leaves \<open>nextIndex\<close>, the length
  of \<open>leaves\<close>, \<open>zeros\<close> and \<open>filledSubtrees\<close> as they were, and every leaf at
  an index other than \<open>leafIndex\<close>. In \<open>filledPaths\<close> it writes, at each level
  \<open>i\<close> below the depth, only the entry of the node \<open>leafIndex div 2 ^ i\<close> and the
  entry of its sibling; every other entry, and every row from the depth on,
  reads as before.
\<close>
theorem C10_update_frame:
  assumes "update H t leafIndex leaf path = Inr t'"
  shows "nextIndex t' = nextIndex t \<and> length (leaves t') = length (leaves t) \<and>
         zeros t' = zeros t \<and> filledSubtrees t' = filledSubtrees t \<and>
         depth t' = depth t \<and> zeroValue t' = zeroValue t \<and> leafNumber t' = leafNumber t \<and>
         (\<forall>j. j \<noteq> leafIndex \<longrightarrow> leaves t' ! j = leaves t ! j) \<and>
         (\<forall>i j. depth t \<le> i \<or> (j \<noteq> leafIndex div 2 ^ i \<and> j \<noteq> siblingIndex leafIndex i) \<longrightarrow>
            getPath (filledPaths t') i j = getPath (filledPaths t) i j)"
proof -
  from update_success [OF assms] obtain t1 c h where
    t': "t' = t1\<lparr>root := h, leaves := (leaves t1)[leafIndex := leaf]\<rparr>"
    and inv: "updateInv H t leafIndex leaf path (depth t) (t1, c, h)" by auto
  from inv have st: "sameStatic t t1" and fs: "filledSubtrees t1 = filledSubtrees t"
    and rf: "rowFrame leafIndex (depth t) (filledPaths t) (filledPaths t1)"
    by (auto simp: updateInv_def)
  have fp: "getPath (filledPaths t') i j = getPath (filledPaths t) i j"
    if "depth t \<le> i \<or> (j \<noteq> leafIndex div 2 ^ i \<and> j \<noteq> siblingIndex leafIndex i)" for i j
  proof (cases "depth t \<le> i")
    case True
    with rf have "filledPaths t1 i = filledPaths t i" by (simp add: rowFrame_def)
    then show ?thesis by (simp add: t' getPath_def)
  next
    case False
    then have "i < depth t" by simp
    with rf have "\<exists>r r'. filledPaths t i = Some r \<and> filledPaths t1 i = Some r' \<and>
      (\<forall>j. j \<noteq> leafIndex div 2 ^ i \<longrightarrow> j \<noteq> siblingIndex leafIndex i \<longrightarrow> r' j = r j)"
      by (simp add: rowFrame_def)
    then obtain r r' where "filledPaths t i = Some r" "filledPaths t1 i = Some r'"
      "\<forall>j. j \<noteq> leafIndex div 2 ^ i \<longrightarrow> j \<noteq> siblingIndex leafIndex i \<longrightarrow> r' j = r j"
      by auto
    with that False show ?thesis by (simp add: t' getPath_def)
  qed
  show ?thesis
    using st fs fp by (simp add: t' sameStatic_def)
qed

theorem C10_update_frame_witness:
  "update Hashed full1 0 (Val 9) [Some (Val 2)] = Inr updated1 \<and>
   nextIndex updated1 = nextIndex full1 \<and>
   filledSubtrees updated1 = filledSubtrees full1 \<and>
   filledSubtrees full1 0 = Some (Val 1) \<and>
   leaves updated1 ! 0 = Val 9 \<and> leaves updated1 ! 1 = leaves full1 ! 1"
proof -
  have up: "isl (update Hashed full1 0 (Val 9) [Some (Val 2)]) = False"
    by (simp add: full1_def tree1_def model_defs)
  then have eq: "update Hashed full1 0 (Val 9) [Some (Val 2)] = Inr updated1"
    unfolding updated1_def
    by (cases "update Hashed full1 0 (Val 9) [Some (Val 2)]") simp_all
  have fs: "filledSubtrees full1 0 = Some (Val 1)"
    by (simp add: full1_def tree1_def model_defs)
  have lf: "leaves updated1 ! 0 = Val 9"
    by (simp add: updated1_def full1_def tree1_def model_defs)
  note frame = C10_update_frame [OF eq]
  have ni: "nextIndex updated1 = nextIndex full1"
    using frame by (rule conjunct1)
  have fs': "filledSubtrees updated1 = filledSubtrees full1"
    using frame by (elim conjE)
  have l1: "leaves updated1 ! 1 = leaves full1 ! 1"
    using frame by (elim conjE) simp
  show ?thesis
    using eq ni fs' fs lf l1 by (intro conjI)
qed

end
